theory Spec2Isabelle
  imports Main
begin

section \<open>Block list synchronisation (update-blocks.js)\<close>

text \<open>
  A shallow embedding of \<^verbatim>\<open>src/update-blocks.js\<close>. Database tables are lists of rows
  in insertion order, ORM calls are atomic steps taken in program order, promise chains
  are sequenced, and the remote API is a parameter. Detached follow-up work (the diff
  and the pruning started by \<^verbatim>\<open>finalizeBlockBatch\<close>) is run at the point where it is
  started. The clock (\<^verbatim>\<open>new Date()\<close>) is a parameter \<open>now\<close>, in milliseconds; only
  the backoff delays move it.
\<close>

subsection \<open>Library functions used by the source\<close>

text \<open>
  lodash \<^verbatim>\<open>_.difference(array, values)\<close>: the elements of \<^verbatim>\<open>array\<close> that do not occur
  in \<^verbatim>\<open>values\<close>, in the order of \<^verbatim>\<open>array\<close>; an element that occurs several times
  in \<^verbatim>\<open>array\<close> is kept as often.
\<close>

definition difference :: "'a list \<Rightarrow> 'a list \<Rightarrow> 'a list" where
  "difference array vals = filter (\<lambda>x. x \<notin> set vals) array"

text \<open>lodash \<^verbatim>\<open>_.pluck(rows, field)\<close>.\<close>

definition pluck :: "'r list \<Rightarrow> ('r \<Rightarrow> 'v) \<Rightarrow> 'v list" where
  "pluck rows field = map field rows"

text \<open>
  \<^verbatim>\<open>Array.prototype.splice(0, n)\<close>: removes the first \<^verbatim>\<open>n\<close> elements from the array
  in place and returns them. The result is the pair (removed elements, array afterwards).
\<close>

definition splice0 :: "nat \<Rightarrow> 'a list \<Rightarrow> 'a list \<times> 'a list" where
  "splice0 n array = (take n array, drop n array)"

subsection \<open>Data model\<close>

type_synonym uid = string

datatype action_type = BLOCK | UNBLOCK | OtherType string
datatype action_cause = EXTERNAL | OtherCause string
datatype action_status = DONE | OtherStatus string

record BtUser =
  uid :: uid
  access_token :: string
  access_token_secret :: string

record BlockBatch =
  bb_id :: nat
  bb_source_uid :: uid
  bb_size :: nat
  bb_currentCursor :: "string option"
  bb_complete :: bool

record Block =
  blk_sink_uid :: uid
  blk_BlockBatchId :: nat

record Action =
  act_id :: nat
  act_source_uid :: uid
  act_sink_uid :: uid
  act_type :: action_type
  act_cause :: action_cause
  act_cause_uid :: "uid option"
  act_status :: action_status
  act_updatedAt :: int

record AnnotatedBlock =
  ab_source_uid :: uid
  ab_sink_uid :: uid
  ab_ActionId :: "nat option"
  ab_shared :: bool

text \<open>
  The persistent tables, the auto-increment counters of the two tables whose ids the
  code reads, and the process-wide \<^verbatim>\<open>activeFetches\<close> object. A registered fetch is
  identified by the number of the orchestration run that produced its promise.
\<close>

record world =
  BlockBatches :: "BlockBatch list"
  Blocks :: "Block list"
  TwitterUsers :: "uid list"
  Actions :: "Action list"
  AnnotatedBlocks :: "AnnotatedBlock list"
  next_BlockBatch_id :: nat
  next_Action_id :: nat
  activeFetches :: "uid \<rightharpoonup> nat"
  fetches_started :: nat

subsection \<open>The removal batches of recordUnblocksUnlessDeactivated\<close>

text \<open>
  The \<^verbatim>\<open>while (sink_uids.length > 0)\<close> loop: each round splices up to 100 uids off the
  caller's array. The result is the list of batches queried, in order, and the caller's
  array when the loop ends.
\<close>

function splice_loop :: "uid list \<Rightarrow> uid list list \<times> uid list" where
  "splice_loop sink_uids =
     (if length sink_uids > 0
      then (let (uidsToQuery, sink_uids') = splice0 100 sink_uids;
                (batches, final) = splice_loop sink_uids'
            in (uidsToQuery # batches, final))
      else ([], sink_uids))"
  by pat_completeness auto
termination
  by (relation "measure length") (auto simp: splice0_def)

declare splice_loop.simps [simp del]

subsection \<open>The diff of two snapshots\<close>

text \<open>
  Lines 247 to 251 of \<^verbatim>\<open>diffBatchWithPrevious\<close>: the sink uids of both snapshots are
  plucked from their blocks and compared with \<^verbatim>\<open>_.difference\<close> in both directions.
\<close>

definition addedBlockIds :: "Block list \<Rightarrow> Block list \<Rightarrow> uid list" where
  "addedBlockIds currentBlocks oldBlocks =
     difference (pluck currentBlocks blk_sink_uid) (pluck oldBlocks blk_sink_uid)"

definition removedBlockIds :: "Block list \<Rightarrow> Block list \<Rightarrow> uid list" where
  "removedBlockIds currentBlocks oldBlocks =
     difference (pluck oldBlocks blk_sink_uid) (pluck currentBlocks blk_sink_uid)"

subsection \<open>The remote API\<close>

text \<open>
  The two calls of the remote API are parameters: the paginated listing
  \<^verbatim>\<open>blocks/ids\<close> (a page of stringified ids and \<^verbatim>\<open>next_cursor_str\<close> for a user and a
  cursor) and the bulk \<^verbatim>\<open>users/lookup\<close> (an error status, or the \<^verbatim>\<open>id_str\<close> of every
  record of the response).
\<close>

datatype lookup_response = LookupError nat | LookupOk "uid list"

record twitter =
  blocks_ids :: "BtUser \<Rightarrow> string \<Rightarrow> uid list \<times> string"
  users_lookup :: "uid list \<Rightarrow> lookup_response"

text \<open>
  What the listing requests of one run meet: each request takes the next outcome of
  the list (a success, or a failure with its status code); when the list is used up
  every request succeeds. The requested cursors and the time spent in backoff delays
  (milliseconds) are logged.
\<close>

datatype outcome = Succeed | Fail nat

record env =
  outcomes :: "outcome list"
  requests :: "string list"
  waited :: nat

definition request :: "env \<Rightarrow> string \<Rightarrow> outcome \<times> env" where
  "request e cursor =
     (case outcomes e of
        [] \<Rightarrow> (Succeed, e\<lparr>requests := requests e @ [cursor]\<rparr>)
      | out # rest \<Rightarrow> (out, e\<lparr>outcomes := rest, requests := requests e @ [cursor]\<rparr>))"

subsection \<open>ORM calls\<close>

definition BlockBatch_create :: "world \<Rightarrow> uid \<Rightarrow> BlockBatch \<times> world" where
  "BlockBatch_create w source =
     (let b = \<lparr>bb_id = next_BlockBatch_id w, bb_source_uid = source, bb_size = 0,
                bb_currentCursor = None, bb_complete = False\<rparr>
      in (b, w\<lparr>BlockBatches := BlockBatches w @ [b],
               next_BlockBatch_id := Suc (next_BlockBatch_id w)\<rparr>))"

definition BlockBatch_save :: "world \<Rightarrow> BlockBatch \<Rightarrow> world" where
  "BlockBatch_save w b =
     w\<lparr>BlockBatches := map (\<lambda>r. if bb_id r = bb_id b then b else r) (BlockBatches w)\<rparr>"

text \<open>\<^verbatim>\<open>TwitterUser.bulkCreate(users, {ignoreDuplicates: true})\<close>.\<close>

fun TwitterUser_bulkCreate :: "uid list \<Rightarrow> uid list \<Rightarrow> uid list" where
  "TwitterUser_bulkCreate table [] = table"
| "TwitterUser_bulkCreate table (u # us) =
     TwitterUser_bulkCreate (if u \<in> set table then table else table @ [u]) us"

definition getBlocks :: "world \<Rightarrow> BlockBatch \<Rightarrow> Block list" where
  "getBlocks w b = filter (\<lambda>r. blk_BlockBatchId r = bb_id b) (Blocks w)"

text \<open>\<^verbatim>\<open>order: 'id DESC'\<close> on a list of snapshots.\<close>

definition order_id_desc :: "BlockBatch list \<Rightarrow> BlockBatch list" where
  "order_id_desc bs = rev (sort_key bb_id bs)"

text \<open>
  Modelled from the spec: the association between snapshots and entries is declared in
  the setup module, which is not part of the source at hand; the spec has a snapshot
  deleted together with its entries, so \<^verbatim>\<open>BlockBatch.destroy\<close> removes the blocks of the
  destroyed snapshots too.
\<close>

definition BlockBatch_destroy :: "world \<Rightarrow> nat list \<Rightarrow> world" where
  "BlockBatch_destroy w ids =
     w\<lparr>BlockBatches := filter (\<lambda>r. bb_id r \<notin> set ids) (BlockBatches w),
       Blocks := filter (\<lambda>r. blk_BlockBatchId r \<notin> set ids) (Blocks w)\<rparr>"

text \<open>
  The query of \<^verbatim>\<open>recordAction\<close>: same source, sink and type, cause not external, status
  done, updated within the last minute. \<^verbatim>\<open>now\<close> is the clock in milliseconds.
\<close>

definition Action_find :: "world \<Rightarrow> int \<Rightarrow> uid \<Rightarrow> uid \<Rightarrow> action_type \<Rightarrow> Action option" where
  "Action_find w now source sink type =
     List.find (\<lambda>a. act_source_uid a = source \<and> act_sink_uid a = sink \<and> act_type a = type \<and>
                   act_cause a \<noteq> EXTERNAL \<and> act_status a = DONE \<and>
                   act_updatedAt a > now - 60 * 1000) (Actions w)"

definition Action_create :: "world \<Rightarrow> int \<Rightarrow> uid \<Rightarrow> uid \<Rightarrow> action_type \<Rightarrow> Action \<times> world" where
  "Action_create w now source sink type =
     (let a = \<lparr>act_id = next_Action_id w, act_source_uid = source, act_sink_uid = sink,
                act_type = type, act_cause = EXTERNAL, act_cause_uid = None,
                act_status = DONE, act_updatedAt = now\<rparr>
      in (a, w\<lparr>Actions := Actions w @ [a], next_Action_id := Suc (next_Action_id w)\<rparr>))"

subsection \<open>recordAction\<close>

text \<open>
  The source binds its models at lines 12 to 18 (\<^verbatim>\<open>BtUser\<close>, \<^verbatim>\<open>TwitterUser\<close>,
  \<^verbatim>\<open>Action\<close>, \<^verbatim>\<open>BlockBatch\<close>, \<^verbatim>\<open>Block\<close>) and names \<^verbatim>\<open>AnnotatedBlock\<close> at lines
  391 and 404 without binding it: evaluating the name throws a \<^verbatim>\<open>ReferenceError\<close>
  inside the second \<^verbatim>\<open>then\<close> callback, which rejects the chain after the Action has
  been found or created. The table of Annotated Entries is part of the world, and
  nothing in this file changes it.
\<close>

datatype rejection = ReferenceError string | Rejected string

text \<open>
  The result is what the promise chain settles with before the final \<^verbatim>\<open>catch\<close> logs a
  rejection: the associated action, or the rejection.
\<close>

definition recordAction ::
  "world \<Rightarrow> int \<Rightarrow> uid \<Rightarrow> uid \<Rightarrow> action_type \<Rightarrow> (rejection + Action) \<times> world" where
  "recordAction w now source sink type =
     (let (associatedAction, w1) =
            (case Action_find w now source sink type of
               None \<Rightarrow> Action_create w now source sink type
             | Some prevAction \<Rightarrow> (prevAction, w))
      in if act_type associatedAction = BLOCK
         then (Inl (ReferenceError ''AnnotatedBlock is not defined''), w1)
         else if act_type associatedAction = UNBLOCK
         then (Inl (ReferenceError ''AnnotatedBlock is not defined''), w1)
         else (Inl (Rejected ''Non-block/unblock passed to recordAction''), w1))"

subsection \<open>recordUnblocksUnlessDeactivated\<close>

text \<open>The \<^verbatim>\<open>forEach\<close> of the lookup callback over the batch.\<close>

fun record_present ::
  "world \<Rightarrow> int \<Rightarrow> uid \<Rightarrow> uid list \<Rightarrow> uid list \<Rightarrow> (rejection + Action) list \<times> world" where
  "record_present w now source indexedResponses [] = ([], w)"
| "record_present w now source indexedResponses (sink # uids) =
     (if sink \<in> set indexedResponses
      then (let (r, w1) = recordAction w now source sink UNBLOCK;
                (rs, w2) = record_present w1 now source indexedResponses uids
            in (r # rs, w2))
      else record_present w now source indexedResponses uids)"

definition lookup_callback ::
  "world \<Rightarrow> int \<Rightarrow> uid \<Rightarrow> uid list \<Rightarrow> lookup_response \<Rightarrow> (rejection + Action) list \<times> world" where
  "lookup_callback w now source uidsToQuery response =
     (case response of
        LookupError statusCode \<Rightarrow> (if statusCode = 404 then ([], w) else ([], w))
      | LookupOk ids \<Rightarrow> record_present w now source ids uidsToQuery)"

text \<open>
  The callbacks of the lookups, run in the order of the requests once the loop has
  ended. \<^verbatim>\<open>var uidsToQuery\<close> is scoped to the function, not to the round of the loop:
  every callback reads the one variable, which by then holds the batch spliced off
  last. The response a callback gets is the one to the batch its request was made for.
\<close>

fun lookup_callbacks ::
  "twitter \<Rightarrow> world \<Rightarrow> int \<Rightarrow> uid \<Rightarrow> uid list \<Rightarrow> uid list list
     \<Rightarrow> (rejection + Action) list \<times> world" where
  "lookup_callbacks tw w now source uidsToQuery [] = ([], w)"
| "lookup_callbacks tw w now source uidsToQuery (queried # batches) =
     (let (rs, w1) = lookup_callback w now source uidsToQuery (users_lookup tw queried);
          (rs', w2) = lookup_callbacks tw w1 now source uidsToQuery batches
      in (rs @ rs', w2))"

text \<open>
  The results of the \<^verbatim>\<open>recordAction\<close> calls made, the world afterwards, and the
  caller's array afterwards.
\<close>

definition recordUnblocksUnlessDeactivated ::
  "twitter \<Rightarrow> world \<Rightarrow> int \<Rightarrow> uid \<Rightarrow> uid list
     \<Rightarrow> (rejection + Action) list \<times> world \<times> uid list" where
  "recordUnblocksUnlessDeactivated tw w now source sink_uids =
     (let (batches, sink_uids') = splice_loop sink_uids;
          uidsToQuery = (if batches = [] then [] else last batches);
          (rs, w') = lookup_callbacks tw w now source uidsToQuery batches
      in (rs, w', sink_uids'))"

subsection \<open>diffBatchWithPrevious\<close>

text \<open>The \<^verbatim>\<open>forEach\<close> over the added ids.\<close>

fun record_blocks ::
  "world \<Rightarrow> int \<Rightarrow> uid \<Rightarrow> uid list \<Rightarrow> (rejection + Action) list \<times> world" where
  "record_blocks w now source [] = ([], w)"
| "record_blocks w now source (sink # uids) =
     (let (r, w1) = recordAction w now source sink BLOCK;
          (rs, w2) = record_blocks w1 now source uids
      in (r # rs, w2))"

definition diffBatchWithPrevious ::
  "twitter \<Rightarrow> world \<Rightarrow> int \<Rightarrow> BlockBatch \<Rightarrow> (rejection + Action) list \<times> world" where
  "diffBatchWithPrevious tw w now currentBatch =
     (let source = bb_source_uid currentBatch;
          batches = take 2 (order_id_desc (filter
            (\<lambda>b. bb_source_uid b = source \<and> bb_id b \<le> bb_id currentBatch \<and> bb_complete b)
            (BlockBatches w)))
      in case batches of
           [currentBatch', oldBatch] \<Rightarrow>
             (let currentBlocks = getBlocks w currentBatch';
                  oldBlocks = getBlocks w oldBatch;
                  (rs, w1) = record_blocks w now source (addedBlockIds currentBlocks oldBlocks);
                  (rs', w2, _) = recordUnblocksUnlessDeactivated tw w1 now source
                                   (removedBlockIds currentBlocks oldBlocks)
              in (rs @ rs', w2))
         | _ \<Rightarrow> ([], w))"

subsection \<open>destroyOldBlocks\<close>

definition destroyOldBlocks :: "world \<Rightarrow> uid \<Rightarrow> world" where
  "destroyOldBlocks w userId =
     (let blockBatches = drop 4 (order_id_desc
            (filter (\<lambda>b. bb_source_uid b = userId) (BlockBatches w)))
      in if length blockBatches > 0
         then BlockBatch_destroy w (pluck blockBatches bb_id)
         else w)"

subsection \<open>handleIds and finalizeBlockBatch\<close>

text \<open>
  The in-memory snapshot object is changed and saved; the result is the object
  afterwards, \<^verbatim>\<open>next_cursor_str\<close> and the world.
\<close>

definition handleIds ::
  "world \<Rightarrow> BlockBatch \<Rightarrow> string \<Rightarrow> uid list \<times> string \<Rightarrow> BlockBatch \<times> string \<times> world" where
  "handleIds w blockBatch currentCursor results =
     (let ids = fst results;
          blockBatch' = blockBatch\<lparr>bb_currentCursor := Some currentCursor,
                                   bb_size := bb_size blockBatch + length ids\<rparr>;
          w1 = BlockBatch_save w blockBatch';
          w2 = w1\<lparr>TwitterUsers := TwitterUser_bulkCreate (TwitterUsers w1) ids\<rparr>;
          w3 = w2\<lparr>Blocks := Blocks w2 @
                 map (\<lambda>i. \<lparr>blk_sink_uid = i, blk_BlockBatchId = bb_id blockBatch'\<rparr>) ids\<rparr>
      in (blockBatch', snd results, w3))"

definition finalizeBlockBatch ::
  "twitter \<Rightarrow> world \<Rightarrow> int \<Rightarrow> BlockBatch \<Rightarrow> BlockBatch \<times> world" where
  "finalizeBlockBatch tw w now blockBatch =
     (let blockBatch' = blockBatch\<lparr>bb_complete := True\<rparr>;
          w1 = BlockBatch_save w blockBatch';
          (_, w2) = diffBatchWithPrevious tw w1 now blockBatch';
          w3 = destroyOldBlocks w2 (bb_source_uid blockBatch');
          w4 = w3\<lparr>activeFetches := (activeFetches w3)(bb_source_uid blockBatch' := None)\<rparr>
      in (blockBatch', w4))"

subsection \<open>updateBlocks and fetchAndStoreBlocks\<close>

text \<open>
  \<^verbatim>\<open>fetchAndStoreBlocks\<close> calls itself for the next page and for the retry after a
  backoff, and nothing bounds the number of requests: the first argument is the number
  of requests the run may make, and the result is \<^verbatim>\<open>None\<close> when they do not suffice.
  Otherwise the result is what the promise resolves with (the sealed snapshot, or
  \<^verbatim>\<open>null\<close>), the request log and the world. \<open>now\<close> is the clock when the call is
  made; the retry after a backoff is made 15 minutes later.
\<close>

text \<open>\<^verbatim>\<open>cursor || '-1'\<close>: \<^verbatim>\<open>null\<close> and the empty string are falsy.\<close>

definition currentCursor_of :: "string option \<Rightarrow> string" where
  "currentCursor_of cursor =
     (case cursor of None \<Rightarrow> ''-1'' | Some c \<Rightarrow> if c = [] then ''-1'' else c)"

fun fetchAndStoreBlocks ::
  "nat \<Rightarrow> twitter \<Rightarrow> int \<Rightarrow> env \<Rightarrow> world \<Rightarrow> BtUser \<Rightarrow> BlockBatch option \<Rightarrow> string option
     \<Rightarrow> (BlockBatch option \<times> env \<times> world) option" where
  "fetchAndStoreBlocks 0 tw now e w user blockBatch cursor = None"
| "fetchAndStoreBlocks (Suc fuel) tw now e w user blockBatch cursor =
     (let currentCursor = currentCursor_of cursor;
          (out, e1) = request e currentCursor
      in case out of
           Succeed \<Rightarrow>
             (let results = blocks_ids tw user currentCursor;
                  (created, w1) = (case blockBatch of
                                     None \<Rightarrow> BlockBatch_create w (uid user)
                                   | Some b \<Rightarrow> (b, w));
                  (blockBatch', nextCursor, w2) = handleIds w1 created currentCursor results
              in if nextCursor = ''0''
                 then (let (sealed, w3) = finalizeBlockBatch tw w2 now blockBatch'
                       in Some (Some sealed, e1, w3))
                 else fetchAndStoreBlocks fuel tw now e1 w2 user (Some blockBatch')
                        (Some nextCursor))
         | Fail statusCode \<Rightarrow>
             if statusCode = 429
             then (case blockBatch of
                     None \<Rightarrow> Some (None, e1, w)
                   | Some b \<Rightarrow>
                       fetchAndStoreBlocks fuel tw (now + 15 * 60 * 1000)
                         (e1\<lparr>waited := waited e1 + 15 * 60 * 1000\<rparr>) w user (Some b)
                         (Some currentCursor))
             else Some (None, e1, w))"

text \<open>
  What \<^verbatim>\<open>updateBlocks\<close> returns: a promise already resolved with \<^verbatim>\<open>null\<close>, or the
  promise of the orchestration run it started.
\<close>

datatype handle = ResolvedNull | Fetch nat

text \<open>
  The synchronous part of \<^verbatim>\<open>updateBlocks\<close>: the guard, and the registration of the
  new run. (The first request of the run is issued before the registration; it reads
  nothing of the registry.)
\<close>

definition updateBlocks_start :: "world \<Rightarrow> BtUser \<Rightarrow> handle \<times> world" where
  "updateBlocks_start w user =
     (if activeFetches w (uid user) \<noteq> None
      then (ResolvedNull, w)
      else (Fetch (fetches_started w),
            w\<lparr>activeFetches := (activeFetches w)(uid user \<mapsto> fetches_started w),
              fetches_started := Suc (fetches_started w)\<rparr>))"

text \<open>
  \<^verbatim>\<open>updateBlocks\<close> with its run carried to the end: the handle returned, what the
  handle resolves with, the request log and the world.
\<close>

definition updateBlocks ::
  "nat \<Rightarrow> twitter \<Rightarrow> int \<Rightarrow> env \<Rightarrow> world \<Rightarrow> BtUser
     \<Rightarrow> (handle \<times> BlockBatch option \<times> env \<times> world) option" where
  "updateBlocks fuel tw now e w user =
     (case updateBlocks_start w user of
        (ResolvedNull, w') \<Rightarrow> Some (ResolvedNull, None, e, w')
      | (Fetch h, w') \<Rightarrow>
          (case fetchAndStoreBlocks fuel tw now e w' user None None of
             None \<Rightarrow> None
           | Some (r, e', w'') \<Rightarrow> Some (Fetch h, r, e', w'')))"

subsection \<open>Example inputs\<close>

definition empty_world :: world where
  "empty_world = \<lparr>BlockBatches = [], Blocks = [], TwitterUsers = [], Actions = [],
     AnnotatedBlocks = [], next_BlockBatch_id = 1, next_Action_id = 1,
     activeFetches = Map.empty, fetches_started = 0\<rparr>"

definition user1 :: BtUser where
  "user1 = \<lparr>uid = ''u1'', access_token = ''token'', access_token_secret = ''secret''\<rparr>"

text \<open>A block list of three pages; every looked-up account is active.\<close>

definition three_pages :: twitter where
  "three_pages = \<lparr>blocks_ids = (\<lambda>user cursor.
        if cursor = ''-1'' then ([''1'', ''2''], ''10'')
        else if cursor = ''10'' then ([''3''], ''20'')
        else ([''4''], ''0'')),
     users_lookup = (\<lambda>ids. LookupOk ids)\<rparr>"

definition no_log :: env where
  "no_log = \<lparr>outcomes = [], requests = [], waited = 0\<rparr>"

definition recent_user_block :: Action where
  "recent_user_block = \<lparr>act_id = 1, act_source_uid = ''u1'', act_sink_uid = ''7'',
     act_type = BLOCK, act_cause = OtherCause ''subscription'', act_cause_uid = Some ''u2'',
     act_status = DONE, act_updatedAt = 4000\<rparr>"

definition batch1 :: BlockBatch where
  "batch1 = \<lparr>bb_id = 1, bb_source_uid = ''u1'', bb_size = 1,
     bb_currentCursor = Some ''-1'', bb_complete = True\<rparr>"

definition batch2 :: BlockBatch where
  "batch2 = \<lparr>bb_id = 2, bb_source_uid = ''u1'', bb_size = 3,
     bb_currentCursor = Some ''-1'', bb_complete = True\<rparr>"

text \<open>Two sealed snapshots; the newer one lists the uid 5 twice.\<close>

definition duplicate_world :: world where
  "duplicate_world = empty_world\<lparr>BlockBatches := [batch1, batch2],
     Blocks := [\<lparr>blk_sink_uid = ''3'', blk_BlockBatchId = 1\<rparr>,
                \<lparr>blk_sink_uid = ''3'', blk_BlockBatchId = 2\<rparr>,
                \<lparr>blk_sink_uid = ''5'', blk_BlockBatchId = 2\<rparr>,
                \<lparr>blk_sink_uid = ''5'', blk_BlockBatchId = 2\<rparr>],
     next_BlockBatch_id := 3\<rparr>"

subsection \<open>Notions used in the statements\<close>

text \<open>
  The second world differs from the first at most in the Action table, its counter and
  the Annotated Entries.
\<close>

definition actions_only :: "world \<Rightarrow> world \<Rightarrow> bool" where
  "actions_only w w' \<longleftrightarrow>
     BlockBatches w' = BlockBatches w \<and> Blocks w' = Blocks w \<and>
     TwitterUsers w' = TwitterUsers w \<and> next_BlockBatch_id w' = next_BlockBatch_id w \<and>
     activeFetches w' = activeFetches w \<and> fetches_started w' = fetches_started w"

text \<open>The next listing request will succeed.\<close>

definition first_request_succeeds :: "env \<Rightarrow> bool" where
  "first_request_succeeds e = (case outcomes e of [] \<Rightarrow> True | out # _ \<Rightarrow> out = Succeed)"

text \<open>What an Action row records of a transition: source, sink, type and cause.\<close>

definition action_fields :: "Action \<Rightarrow> uid \<times> uid \<times> action_type \<times> action_cause" where
  "action_fields a = (act_source_uid a, act_sink_uid a, act_type a, act_cause a)"



text \<open>A block list of two pages; every looked-up account is active.\<close>

definition two_pages :: twitter where
  "two_pages = \<lparr>blocks_ids = (\<lambda>user cursor.
        if cursor = ''-1'' then ([''1'', ''2''], ''5'') else ([''3''], ''0'')),
     users_lookup = (\<lambda>ids. LookupOk ids)\<rparr>"

text \<open>An outcome that does not end a run that has its snapshot: success or rate limit.\<close>

definition retryable :: "outcome \<Rightarrow> bool" where
  "retryable out = (out = Succeed \<or> out = Fail 429)"

text \<open>
  The listing as the remote API serves it, without the program: whether the pages
  from a cursor on end within k pages (\<^verbatim>\<open>next_cursor_str\<close> is \<^verbatim>\<open>'0'\<close>), and the ids of
  these pages in order. This is what an uninterrupted run is to store.
\<close>

fun reaches_end :: "nat \<Rightarrow> twitter \<Rightarrow> BtUser \<Rightarrow> string \<Rightarrow> bool" where
  "reaches_end 0 tw user cursor = False"
| "reaches_end (Suc k) tw user cursor =
     (snd (blocks_ids tw user cursor) = ''0'' \<or>
      reaches_end k tw user (currentCursor_of (Some (snd (blocks_ids tw user cursor)))))"

fun listed_ids :: "nat \<Rightarrow> twitter \<Rightarrow> BtUser \<Rightarrow> string \<Rightarrow> uid list" where
  "listed_ids 0 tw user cursor = []"
| "listed_ids (Suc k) tw user cursor =
     fst (blocks_ids tw user cursor) @
     (if snd (blocks_ids tw user cursor) = ''0'' then []
      else listed_ids k tw user (currentCursor_of (Some (snd (blocks_ids tw user cursor)))))"

text \<open>A block list of one page.\<close>

definition one_page :: twitter where
  "one_page = \<lparr>blocks_ids = (\<lambda>user cursor. ([''1''], ''0'')),
     users_lookup = (\<lambda>ids. LookupOk ids)\<rparr>"

text \<open>
  Six snapshots of one account: the fifth was left incomplete by an aborted sync, the
  sixth has just been sealed.
\<close>

definition snapshot :: "nat \<Rightarrow> bool \<Rightarrow> BlockBatch" where
  "snapshot i c = \<lparr>bb_id = i, bb_source_uid = ''u1'', bb_size = 0,
     bb_currentCursor = Some ''-1'', bb_complete = c\<rparr>"

definition aborted_world :: world where
  "aborted_world = empty_world\<lparr>BlockBatches :=
       [snapshot 1 True, snapshot 2 True, snapshot 3 True, snapshot 4 True,
        snapshot 5 False, snapshot 6 True],
     next_BlockBatch_id := 7\<rparr>"

subsection \<open>Notions used in the statements on retention\<close>

text \<open>The snapshots of an account, newest first.\<close>

definition account_batches :: "world \<Rightarrow> uid \<Rightarrow> BlockBatch list" where
  "account_batches w u = order_id_desc (filter (\<lambda>b. bb_source_uid b = u) (BlockBatches w))"

text \<open>
  What the database guarantees of the two tables: snapshot ids are a primary key
  handed out by the auto-increment counter, and every entry refers to a snapshot.
\<close>

definition store_ok :: "world \<Rightarrow> bool" where
  "store_ok w \<longleftrightarrow>
     distinct (map bb_id (BlockBatches w)) \<and>
     list_all (\<lambda>b. bb_id b < next_BlockBatch_id w) (BlockBatches w) \<and>
     list_all (\<lambda>r. blk_BlockBatchId r \<in> bb_id ` set (BlockBatches w)) (Blocks w)"

text \<open>
  During a run: the snapshot object in memory is the row created last, after the
  rows \<open>old\<close> that were there when the run began.
\<close>

definition in_progress :: "world \<Rightarrow> BlockBatch \<Rightarrow> BlockBatch list \<Rightarrow> bool" where
  "in_progress w b old \<longleftrightarrow>
     BlockBatches w = old @ [b] \<and> store_ok w \<and> next_BlockBatch_id w = Suc (bb_id b)"

text \<open>
  Syncs of one account run one after the other, each with its own fuel, remote API,
  clock and outcomes: the sealed snapshots in the order of the syncs and the world at
  the end, or \<open>None\<close> when one of the syncs does not end sealed.
\<close>

fun run_syncs ::
  "(nat \<times> twitter \<times> int \<times> env) list \<Rightarrow> world \<Rightarrow> BtUser \<Rightarrow> (BlockBatch list \<times> world) option" where
  "run_syncs [] w user = Some ([], w)"
| "run_syncs ((fuel, tw, now, e) # rest) w user =
     (case updateBlocks fuel tw now e w user of
        Some (h, Some sealed, e', w') \<Rightarrow>
          (case run_syncs rest w' user of
             Some (ss, w'') \<Rightarrow> Some (sealed # ss, w'')
           | None \<Rightarrow> None)
      | _ \<Rightarrow> None)"

section \<open>Properties\<close>

subsection \<open>The splice loop\<close>

lemma splice_loop_final: "snd (splice_loop xs) = []"
proof (induction xs rule: splice_loop.induct)
  case (1 sink_uids)
  show ?case
  proof (cases "length sink_uids > 0")
    case True
    then have IH: "snd (splice_loop (drop 100 sink_uids)) = []"
      using 1 by (simp add: splice0_def)
    with True show ?thesis
      by (subst splice_loop.simps) (auto simp add: splice0_def split: prod.splits)
  next
    case False
    then show ?thesis by (subst splice_loop.simps) simp
  qed
qed

lemma splice_loop_concat: "concat (fst (splice_loop xs)) = xs"
proof (induction xs rule: splice_loop.induct)
  case (1 sink_uids)
  show ?case
  proof (cases "length sink_uids > 0")
    case True
    then have IH: "concat (fst (splice_loop (drop 100 sink_uids))) = drop 100 sink_uids"
      using 1 by (simp add: splice0_def)
    with True show ?thesis
      by (subst splice_loop.simps) (auto simp add: splice0_def split: prod.splits)
  next
    case False
    then show ?thesis by (subst splice_loop.simps) simp
  qed
qed

lemma splice_loop_sizes:
  "b \<in> set (fst (splice_loop xs)) \<Longrightarrow> 0 < length b \<and> length b \<le> 100"
proof (induction xs rule: splice_loop.induct)
  case (1 sink_uids)
  show ?case
  proof (cases "length sink_uids > 0")
    case True
    with 1 show ?thesis
      by (subst (asm) (2) splice_loop.simps) (auto simp add: splice0_def split: prod.splits)
  next
    case False
    with 1(2) show ?thesis by (subst (asm) splice_loop.simps) simp
  qed
qed

text \<open>
  C10. \<^verbatim>\<open>recordUnblocksUnlessDeactivated\<close> consumes the caller's array: whatever list
  is passed, the array is empty when the call returns. The batches spliced off are
  consecutive runs of the list, each of at least one and at most 100 uids.
\<close>

theorem recordUnblocks_consumes_array:
  "snd (snd (recordUnblocksUnlessDeactivated tw w now source sink_uids)) = [] \<and>
   concat (fst (splice_loop sink_uids)) = sink_uids \<and>
   list_all (\<lambda>b. 0 < length b \<and> length b \<le> 100) (fst (splice_loop sink_uids))"
proof -
  have "snd (snd (recordUnblocksUnlessDeactivated tw w now source sink_uids)) = []"
    using splice_loop_final [of sink_uids]
    by (auto simp add: recordUnblocksUnlessDeactivated_def split: prod.splits)
  moreover have "list_all (\<lambda>b. 0 < length b \<and> length b \<le> 100) (fst (splice_loop sink_uids))"
    unfolding list_all_iff using splice_loop_sizes by blast
  ultimately show ?thesis
    by (simp add: splice_loop_concat)
qed

theorem recordUnblocks_consumes_array_witness:
  "snd (snd (recordUnblocksUnlessDeactivated three_pages empty_world 0 ''u1''
      [''7'', ''8'', ''9''])) = []"
  using recordUnblocks_consumes_array [of three_pages empty_world 0 "''u1''" "[''7'', ''8'', ''9'']"]
  by simp

subsection \<open>The diff\<close>

text \<open>
  C8. For the entries A and B of two snapshots, with the diff computed as
  added = difference(current, previous) and removed = difference(previous, current):
  no identifier is both added and removed, and what is added from B to A is what is
  removed from A to B.
\<close>

theorem diff_added_removed:
  "set (addedBlockIds A B) \<inter> set (removedBlockIds A B) = {} \<and>
   addedBlockIds A B = removedBlockIds B A"
  by (auto simp: addedBlockIds_def removedBlockIds_def difference_def pluck_def)

subsection \<open>The in-flight registration\<close>

text \<open>
  C1. The registration is not removed on the failure paths: when the first listing
  request of a run fails (rate limit or any other status), the run ends resolved with
  \<^verbatim>\<open>null\<close>, no snapshot is created, and the account is still registered; every later
  \<^verbatim>\<open>updateBlocks\<close> for the account then returns at the guard and does nothing.
\<close>

theorem registration_stuck_after_failure:
  assumes "activeFetches w (uid user) = None" and "outcomes e = Fail statusCode # rest"
  shows "case updateBlocks (Suc fuel) tw now e w user of
           None \<Rightarrow> False
         | Some (h, r, e', w') \<Rightarrow>
             h = Fetch (fetches_started w) \<and> r = None \<and>
             BlockBatches w' = BlockBatches w \<and>
             activeFetches w' (uid user) = Some (fetches_started w) \<and>
             updateBlocks fuel2 tw2 now2 e2 w' user = Some (ResolvedNull, None, e2, w')"
  using assms
  by (simp add: updateBlocks_def updateBlocks_start_def request_def Let_def)

theorem registration_stuck_witness:
  "case updateBlocks (Suc 0) three_pages 0 (no_log\<lparr>outcomes := [Fail 429]\<rparr>)
          empty_world user1 of
     None \<Rightarrow> False
   | Some (h, r, e', w') \<Rightarrow>
       h = Fetch (fetches_started empty_world) \<and> r = None \<and>
       BlockBatches w' = BlockBatches empty_world \<and>
       activeFetches w' (uid user1) = Some (fetches_started empty_world) \<and>
       updateBlocks 5 three_pages 1000 no_log w' user1 = Some (ResolvedNull, None, no_log, w')"
proof -
  have free: "activeFetches empty_world (uid user1) = None"
    by (simp add: empty_world_def)
  have limited: "outcomes (no_log\<lparr>outcomes := [Fail 429]\<rparr>) = Fail 429 # []"
    by simp
  show ?thesis
    by (rule registration_stuck_after_failure [OF free limited])
qed

subsection \<open>What the Action Recorder changes\<close>

lemma actions_only_refl [simp]: "actions_only w w"
  by (simp add: actions_only_def)

lemma actions_only_trans: "actions_only w w1 \<Longrightarrow> actions_only w1 w2 \<Longrightarrow> actions_only w w2"
  by (simp add: actions_only_def)

lemma actions_only_sym: "actions_only w w1 \<Longrightarrow> actions_only w1 w"
  by (simp add: actions_only_def)

lemma recordAction_world:
  "snd (recordAction w now source sink type) =
     (case Action_find w now source sink type of
        None \<Rightarrow> snd (Action_create w now source sink type)
      | Some prevAction \<Rightarrow> w)"
  by (simp add: recordAction_def Let_def split_beta split: option.splits)

lemma recordAction_Actions:
  "Actions (snd (recordAction w now source sink type)) =
     Actions w @
       (case Action_find w now source sink type of
          None \<Rightarrow> [\<lparr>act_id = next_Action_id w, act_source_uid = source, act_sink_uid = sink,
                     act_type = type, act_cause = EXTERNAL, act_cause_uid = None,
                     act_status = DONE, act_updatedAt = now\<rparr>]
        | Some prevAction \<Rightarrow> [])"
  by (simp add: recordAction_world Action_create_def Let_def split: option.splits)

lemma recordAction_frame: "actions_only w (snd (recordAction w now source sink type))"
  by (simp add: recordAction_world Action_create_def actions_only_def Let_def
      split: option.splits)

lemma record_present_frame: "actions_only w (snd (record_present w now source ids uids))"
proof (induction uids arbitrary: w)
  case Nil
  show ?case by simp
next
  case (Cons sink uids)
  show ?case
    using Cons [of "snd (recordAction w now source sink UNBLOCK)"] Cons [of w]
      recordAction_frame [of w now source sink UNBLOCK]
    by (auto simp: split_beta Let_def intro: actions_only_trans)
qed

lemma record_blocks_frame: "actions_only w (snd (record_blocks w now source uids))"
proof (induction uids arbitrary: w)
  case Nil
  show ?case by simp
next
  case (Cons sink uids)
  show ?case
    using Cons [of "snd (recordAction w now source sink BLOCK)"]
      recordAction_frame [of w now source sink BLOCK]
    by (auto simp: split_beta Let_def intro: actions_only_trans)
qed

lemma lookup_callback_frame:
  "actions_only w (snd (lookup_callback w now source uids response))"
  by (cases response) (simp_all add: lookup_callback_def record_present_frame)

lemma lookup_callbacks_frame:
  "actions_only w (snd (lookup_callbacks tw w now source uids batches))"
proof (induction batches arbitrary: w)
  case Nil
  show ?case by simp
next
  case (Cons b batches)
  show ?case
    using Cons [of "snd (lookup_callback w now source uids (users_lookup tw b))"]
      lookup_callback_frame [of w now source uids "users_lookup tw b"]
    by (auto simp: split_beta Let_def intro: actions_only_trans)
qed

lemma recordUnblocks_frame:
  "actions_only w (fst (snd (recordUnblocksUnlessDeactivated tw w now source uids)))"
  by (simp add: recordUnblocksUnlessDeactivated_def split_beta Let_def lookup_callbacks_frame)

lemma diffBatchWithPrevious_frame:
  "actions_only w (snd (diffBatchWithPrevious tw w now b))"
  unfolding diffBatchWithPrevious_def Let_def
  by (auto simp: split_beta split: list.splits
      intro: actions_only_trans [OF record_blocks_frame recordUnblocks_frame])

subsection \<open>The dedup search\<close>

lemma find_stricter:
  assumes "List.find P xs = Some a" and "Q a" and "\<And>x. Q x \<Longrightarrow> P x"
  shows "List.find Q xs = Some a"
  using assms by (induction xs) (auto split: if_splits)

lemma find_None_stricter:
  "List.find P xs = None \<Longrightarrow> (\<And>x. Q x \<Longrightarrow> P x) \<Longrightarrow> List.find Q xs = None"
  by (auto simp: find_None_iff)

lemma find_snoc_not: "\<not> P a \<Longrightarrow> List.find P (xs @ [a]) = List.find P xs"
  by (induction xs) auto

lemma Action_find_type:
  "Action_find w now source sink type = Some a \<Longrightarrow>
     act_source_uid a = source \<and> act_sink_uid a = sink \<and> act_type a = type \<and>
     act_cause a \<noteq> EXTERNAL \<and> act_status a = DONE \<and> now - 60 * 1000 < act_updatedAt a \<and>
     a \<in> set (Actions w)"
  unfolding Action_find_def by (auto simp: find_Some_iff)

lemma Action_find_later:
  assumes "Action_find w now1 source sink type = Some a" and "now1 \<le> now2"
    and "now2 - 60 * 1000 < act_updatedAt a"
  shows "Action_find w now2 source sink type = Some a"
  unfolding Action_find_def
  apply (rule find_stricter [OF assms(1) [unfolded Action_find_def]])
  using assms Action_find_type [OF assms(1)] by auto

lemma Action_find_None_later:
  assumes "Action_find w now1 source sink type = None" and "now1 \<le> now2"
  shows "Action_find w now2 source sink type = None"
  unfolding Action_find_def
  by (rule find_None_stricter [OF assms(1) [unfolded Action_find_def]]) (use assms(2) in auto)

lemma recordAction_Action_find:
  "Action_find (snd (recordAction w now source sink type)) now' source' sink' type' =
   Action_find w now' source' sink' type'"
  by (auto simp: recordAction_world Action_create_def Let_def Action_find_def find_snoc_not
      split: option.splits)

text \<open>
  C2 (as amended). \<^verbatim>\<open>recordAction\<close> with a type that is neither BLOCK nor UNBLOCK is
  rejected with \<^verbatim>\<open>'Non-block/unblock passed to recordAction'\<close>, and no Annotated
  Entry is created, modified or deleted. The type is looked at only after the Action has
  been found or created: when the dedup search finds no recent Action of that type, an
  Action row of that type (cause external) has been created by then; when it finds
  one, nothing is changed.
\<close>

theorem recordAction_invalid_type:
  assumes "type \<noteq> BLOCK" and "type \<noteq> UNBLOCK"
  shows "recordAction w now source sink type =
           (Inl (Rejected ''Non-block/unblock passed to recordAction''),
            case Action_find w now source sink type of
              None \<Rightarrow>
                w\<lparr>Actions := Actions w @
                     [\<lparr>act_id = next_Action_id w, act_source_uid = source, act_sink_uid = sink,
                       act_type = type, act_cause = EXTERNAL, act_cause_uid = None,
                       act_status = DONE, act_updatedAt = now\<rparr>],
                  next_Action_id := Suc (next_Action_id w)\<rparr>
            | Some prevAction \<Rightarrow> w) \<and>
         AnnotatedBlocks (snd (recordAction w now source sink type)) = AnnotatedBlocks w"
  using assms
  by (auto simp: recordAction_def Action_create_def Let_def split: option.splits
      dest: Action_find_type)

theorem recordAction_invalid_type_witness:
  "recordAction
     (empty_world\<lparr>Actions := [recent_user_block\<lparr>act_type := OtherType ''mute''\<rparr>],
                  next_Action_id := 2\<rparr>)
     5000 ''u1'' ''7'' (OtherType ''mute'') =
   (Inl (Rejected ''Non-block/unblock passed to recordAction''),
    empty_world\<lparr>Actions := [recent_user_block\<lparr>act_type := OtherType ''mute''\<rparr>],
                 next_Action_id := 2\<rparr>)"
  using recordAction_invalid_type [of "OtherType ''mute''"
      "empty_world\<lparr>Actions := [recent_user_block\<lparr>act_type := OtherType ''mute''\<rparr>],
                   next_Action_id := 2\<rparr>" 5000 "''u1''" "''7''"]
  by (simp add: Action_find_def recent_user_block_def)

text \<open>
  On an empty Action table the rejected call leaves an Action row of the invalid type.
\<close>

theorem recordAction_invalid_type_counterexample:
  "Actions (snd (recordAction empty_world 5000 ''u1'' ''7'' (OtherType ''mute''))) =
     [\<lparr>act_id = 1, act_source_uid = ''u1'', act_sink_uid = ''7'',
       act_type = OtherType ''mute'', act_cause = EXTERNAL, act_cause_uid = None,
       act_status = DONE, act_updatedAt = 5000\<rparr>]"
  by (simp add: recordAction_def Action_find_def Action_create_def empty_world_def Let_def)

text \<open>
  C3 (as amended). Two calls \<^verbatim>\<open>recordAction(source, sink, BLOCK)\<close>, the second not
  before the first: when the dedup search of the first call finds an Action (done,
  cause not external, updated within the last minute) that is still within the window
  at the second call, neither call creates an Action row. When the search of the first
  call finds nothing, each of the two calls creates a row of its own, with cause
  external: the search ignores the rows that \<^verbatim>\<open>recordAction\<close> itself creates.
\<close>

theorem recordAction_twice:
  "(Action_find w now1 source sink BLOCK = Some a \<and> now1 \<le> now2 \<and>
      now2 - 60 * 1000 < act_updatedAt a \<longrightarrow>
      Actions (snd (recordAction w now1 source sink BLOCK)) = Actions w \<and>
      Actions (snd (recordAction (snd (recordAction w now1 source sink BLOCK))
                 now2 source sink BLOCK)) = Actions w) \<and>
   (Action_find w now1 source sink BLOCK = None \<and> now1 \<le> now2 \<longrightarrow>
      Actions (snd (recordAction (snd (recordAction w now1 source sink BLOCK))
                 now2 source sink BLOCK)) =
        Actions w @
          [\<lparr>act_id = next_Action_id w, act_source_uid = source, act_sink_uid = sink,
            act_type = BLOCK, act_cause = EXTERNAL, act_cause_uid = None,
            act_status = DONE, act_updatedAt = now1\<rparr>,
           \<lparr>act_id = Suc (next_Action_id w), act_source_uid = source, act_sink_uid = sink,
            act_type = BLOCK, act_cause = EXTERNAL, act_cause_uid = None,
            act_status = DONE, act_updatedAt = now2\<rparr>])"
proof (intro conjI impI)
  assume h: "Action_find w now1 source sink BLOCK = Some a \<and> now1 \<le> now2 \<and>
      now2 - 60 * 1000 < act_updatedAt a"
  then have f1: "Action_find w now1 source sink BLOCK = Some a" by simp
  then show one: "Actions (snd (recordAction w now1 source sink BLOCK)) = Actions w"
    by (simp add: recordAction_Actions)
  have "Action_find w now2 source sink BLOCK = Some a"
    using Action_find_later h by blast
  then have "Action_find (snd (recordAction w now1 source sink BLOCK)) now2 source sink BLOCK =
      Some a"
    by (simp add: recordAction_Action_find)
  then show "Actions (snd (recordAction (snd (recordAction w now1 source sink BLOCK))
                 now2 source sink BLOCK)) = Actions w"
    by (simp add: recordAction_Actions [of "snd (recordAction w now1 source sink BLOCK)"] one)
next
  assume h: "Action_find w now1 source sink BLOCK = None \<and> now1 \<le> now2"
  then have n1: "Action_find w now1 source sink BLOCK = None" by simp
  have "Action_find w now2 source sink BLOCK = None"
    using Action_find_None_later h by blast
  then have n2: "Action_find (snd (recordAction w now1 source sink BLOCK)) now2 source sink BLOCK =
      None"
    by (simp add: recordAction_Action_find)
  have nxt: "next_Action_id (snd (recordAction w now1 source sink BLOCK)) = Suc (next_Action_id w)"
    by (simp add: recordAction_world n1 Action_create_def Let_def)
  show "Actions (snd (recordAction (snd (recordAction w now1 source sink BLOCK))
                 now2 source sink BLOCK)) =
        Actions w @
          [\<lparr>act_id = next_Action_id w, act_source_uid = source, act_sink_uid = sink,
            act_type = BLOCK, act_cause = EXTERNAL, act_cause_uid = None,
            act_status = DONE, act_updatedAt = now1\<rparr>,
           \<lparr>act_id = Suc (next_Action_id w), act_source_uid = source, act_sink_uid = sink,
            act_type = BLOCK, act_cause = EXTERNAL, act_cause_uid = None,
            act_status = DONE, act_updatedAt = now2\<rparr>]"
    by (simp add: recordAction_Actions [of "snd (recordAction w now1 source sink BLOCK)"] n2 nxt)
       (simp add: recordAction_Actions n1)
qed

theorem recordAction_twice_witness:
  "Actions (snd (recordAction
      (snd (recordAction (empty_world\<lparr>Actions := [recent_user_block], next_Action_id := 2\<rparr>)
              5000 ''u1'' ''7'' BLOCK))
      6000 ''u1'' ''7'' BLOCK)) = [recent_user_block] \<and>
   Actions (snd (recordAction (snd (recordAction empty_world 5000 ''u1'' ''7'' BLOCK))
      6000 ''u1'' ''7'' BLOCK)) =
     [\<lparr>act_id = 1, act_source_uid = ''u1'', act_sink_uid = ''7'',
       act_type = BLOCK, act_cause = EXTERNAL, act_cause_uid = None,
       act_status = DONE, act_updatedAt = 5000\<rparr>,
      \<lparr>act_id = 2, act_source_uid = ''u1'', act_sink_uid = ''7'',
       act_type = BLOCK, act_cause = EXTERNAL, act_cause_uid = None,
       act_status = DONE, act_updatedAt = 6000\<rparr>]"
proof -
  have found: "Action_find (empty_world\<lparr>Actions := [recent_user_block], next_Action_id := 2\<rparr>)
          5000 ''u1'' ''7'' BLOCK = Some recent_user_block \<and> (5000::int) \<le> 6000 \<and>
        6000 - 60 * 1000 < act_updatedAt recent_user_block"
    by (simp add: Action_find_def recent_user_block_def)
  have nothing: "Action_find empty_world 5000 ''u1'' ''7'' BLOCK = None \<and> (5000::int) \<le> 6000"
    by (simp add: Action_find_def empty_world_def)
  have "Actions (snd (recordAction
      (snd (recordAction (empty_world\<lparr>Actions := [recent_user_block], next_Action_id := 2\<rparr>)
              5000 ''u1'' ''7'' BLOCK))
      6000 ''u1'' ''7'' BLOCK)) = [recent_user_block]"
    using recordAction_twice [of "empty_world\<lparr>Actions := [recent_user_block], next_Action_id := 2\<rparr>"
      5000 "''u1''" "''7''" recent_user_block 6000] found
    by simp
  moreover have "Actions (snd (recordAction (snd (recordAction empty_world 5000 ''u1'' ''7'' BLOCK))
      6000 ''u1'' ''7'' BLOCK)) =
     [\<lparr>act_id = 1, act_source_uid = ''u1'', act_sink_uid = ''7'',
       act_type = BLOCK, act_cause = EXTERNAL, act_cause_uid = None,
       act_status = DONE, act_updatedAt = 5000\<rparr>,
      \<lparr>act_id = 2, act_source_uid = ''u1'', act_sink_uid = ''7'',
       act_type = BLOCK, act_cause = EXTERNAL, act_cause_uid = None,
       act_status = DONE, act_updatedAt = 6000\<rparr>]"
    using recordAction_twice [of empty_world 5000 "''u1''" "''7''" recent_user_block 6000] nothing
    by (simp add: empty_world_def Action_find_def numeral_2_eq_2)
  ultimately show ?thesis by (rule conjI)
qed

text \<open>
  On an empty Action table, two calls one second apart leave two Action rows for the
  same (source, sink, BLOCK).
\<close>

theorem recordAction_twice_counterexample:
  "length (filter (\<lambda>a. act_source_uid a = ''u1'' \<and> act_sink_uid a = ''7'' \<and> act_type a = BLOCK)
     (Actions (snd (recordAction (snd (recordAction empty_world 5000 ''u1'' ''7'' BLOCK))
        6000 ''u1'' ''7'' BLOCK)))) = 2"
  by (simp add: recordAction_def Action_find_def Action_create_def empty_world_def Let_def)

subsection \<open>Action rows of the diff\<close>

lemma count_list_filter:
  "count_list (filter P ys) x = (if P x then count_list ys x else 0)"
  by (induction ys) auto



lemma splice_loop_Nil: "splice_loop [] = ([], [])"
  by (subst splice_loop.simps) simp


lemma recordAction_fields:
  "map action_fields (Actions (snd (recordAction w now source sink type))) =
     map action_fields (Actions w) @
       (if Action_find w now source sink type = None then [(source, sink, type, EXTERNAL)]
        else [])"
  by (simp add: recordAction_Actions action_fields_def split: option.splits)

lemma record_blocks_Action_find:
  "Action_find (snd (record_blocks w now source uids)) now' source' sink' type' =
   Action_find w now' source' sink' type'"
  by (induction uids arbitrary: w) (simp_all add: split_beta recordAction_Action_find)

lemma record_blocks_fields:
  "map action_fields (Actions (snd (record_blocks w now source uids))) =
     map action_fields (Actions w) @
       map (\<lambda>x. (source, x, BLOCK, EXTERNAL))
         (filter (\<lambda>x. Action_find w now source x BLOCK = None) uids)"
proof (induction uids arbitrary: w)
  case Nil
  show ?case by simp
next
  case (Cons sink uids)
  show ?case
    by (simp add: split_beta Cons recordAction_fields recordAction_Action_find)
qed

lemma record_blocks_calls: "length (fst (record_blocks w now source uids)) = length uids"
  by (induction uids arbitrary: w) (simp_all add: split_beta)

text \<open>
  C6 (as amended). The added and removed results hold exactly the identifiers of the
  two set differences, but an identifier is kept as often as it occurs in the first
  operand: one that occurs k times in the current snapshot and not in the previous one
  is added k times (likewise for removals). \<^verbatim>\<open>recordAction\<close> is called once for every
  element of the added list, and the Action table grows by one BLOCK row with cause
  external for every element for which the dedup search finds no recent Action. When
  a snapshot lists no identifier twice, the result computed from it lists none twice.
\<close>

theorem diff_multiplicity:
  "set (addedBlockIds currentBlocks oldBlocks) =
     blk_sink_uid ` set currentBlocks - blk_sink_uid ` set oldBlocks \<and>
   set (removedBlockIds currentBlocks oldBlocks) =
     blk_sink_uid ` set oldBlocks - blk_sink_uid ` set currentBlocks \<and>
   count_list (addedBlockIds currentBlocks oldBlocks) x =
     (if x \<in> blk_sink_uid ` set oldBlocks then 0
      else count_list (map blk_sink_uid currentBlocks) x) \<and>
   count_list (removedBlockIds currentBlocks oldBlocks) x =
     (if x \<in> blk_sink_uid ` set currentBlocks then 0
      else count_list (map blk_sink_uid oldBlocks) x) \<and>
   length (fst (record_blocks w now source (addedBlockIds currentBlocks oldBlocks))) =
     length (addedBlockIds currentBlocks oldBlocks) \<and>
   map action_fields
       (Actions (snd (record_blocks w now source (addedBlockIds currentBlocks oldBlocks)))) =
     map action_fields (Actions w) @
       map (\<lambda>x. (source, x, BLOCK, EXTERNAL))
         (filter (\<lambda>x. Action_find w now source x BLOCK = None)
            (addedBlockIds currentBlocks oldBlocks)) \<and>
   (distinct (map blk_sink_uid currentBlocks) \<longrightarrow>
      distinct (addedBlockIds currentBlocks oldBlocks)) \<and>
   (distinct (map blk_sink_uid oldBlocks) \<longrightarrow>
      distinct (removedBlockIds currentBlocks oldBlocks))"
proof -
  have sets: "set (addedBlockIds currentBlocks oldBlocks) =
      blk_sink_uid ` set currentBlocks - blk_sink_uid ` set oldBlocks"
    "set (removedBlockIds currentBlocks oldBlocks) =
      blk_sink_uid ` set oldBlocks - blk_sink_uid ` set currentBlocks"
    by (auto simp: addedBlockIds_def removedBlockIds_def difference_def pluck_def)
  have counts: "count_list (addedBlockIds currentBlocks oldBlocks) x =
     (if x \<in> blk_sink_uid ` set oldBlocks then 0
      else count_list (map blk_sink_uid currentBlocks) x)"
    "count_list (removedBlockIds currentBlocks oldBlocks) x =
     (if x \<in> blk_sink_uid ` set currentBlocks then 0
      else count_list (map blk_sink_uid oldBlocks) x)"
    by (simp_all add: addedBlockIds_def removedBlockIds_def difference_def pluck_def
        count_list_filter)
  have dist: "distinct (map blk_sink_uid currentBlocks) \<longrightarrow>
      distinct (addedBlockIds currentBlocks oldBlocks)"
    "distinct (map blk_sink_uid oldBlocks) \<longrightarrow>
      distinct (removedBlockIds currentBlocks oldBlocks)"
    by (simp_all add: addedBlockIds_def removedBlockIds_def difference_def pluck_def)
  from sets counts dist show ?thesis
    by (simp only: record_blocks_fields record_blocks_calls simp_thms)
qed

theorem diff_multiplicity_witness:
  "distinct (map blk_sink_uid (getBlocks duplicate_world batch1)) \<and>
   distinct (removedBlockIds (getBlocks duplicate_world batch2) (getBlocks duplicate_world batch1)) \<and>
   distinct (addedBlockIds (getBlocks duplicate_world batch1) (getBlocks duplicate_world batch2)) \<and>
   count_list (addedBlockIds (getBlocks duplicate_world batch2) (getBlocks duplicate_world batch1))
     ''5'' = 2"
proof -
  have d: "distinct (map blk_sink_uid (getBlocks duplicate_world batch1))"
    by (simp add: getBlocks_def duplicate_world_def batch1_def)
  have c: "count_list (map blk_sink_uid (getBlocks duplicate_world batch2)) ''5'' = 2"
    "''5'' \<notin> blk_sink_uid ` set (getBlocks duplicate_world batch1)"
    by (simp_all add: getBlocks_def duplicate_world_def batch1_def batch2_def)
  have "distinct (removedBlockIds (getBlocks duplicate_world batch2)
          (getBlocks duplicate_world batch1)) \<and>
      count_list (addedBlockIds (getBlocks duplicate_world batch2)
          (getBlocks duplicate_world batch1)) ''5'' = 2"
    using diff_multiplicity [where currentBlocks = "getBlocks duplicate_world batch2"
        and oldBlocks = "getBlocks duplicate_world batch1" and x = "''5''"] d c
    by simp
  moreover have "distinct (addedBlockIds (getBlocks duplicate_world batch1)
      (getBlocks duplicate_world batch2))"
    using diff_multiplicity [where currentBlocks = "getBlocks duplicate_world batch1"
        and oldBlocks = "getBlocks duplicate_world batch2"] d
    by blast
  ultimately show ?thesis using d by blast
qed

text \<open>
  The newer of two sealed snapshots lists the uid 5 twice and the older one does not
  list it: the diff records two BLOCK actions for it.
\<close>

theorem diff_duplicates_counterexample:
  "map (\<lambda>a. (act_sink_uid a, act_type a))
     (Actions (snd (diffBatchWithPrevious three_pages duplicate_world 5000 batch2))) =
   [(''5'', BLOCK), (''5'', BLOCK)]"
  by (simp add: diffBatchWithPrevious_def duplicate_world_def empty_world_def batch1_def
      batch2_def order_id_desc_def getBlocks_def addedBlockIds_def removedBlockIds_def
      difference_def pluck_def recordAction_def Action_find_def Action_create_def
      recordUnblocksUnlessDeactivated_def splice_loop_Nil Let_def)

subsection \<open>The Deactivation Filter\<close>

lemma record_present_Action_find:
  "Action_find (snd (record_present w now source ids uids)) now' source' sink' type' =
   Action_find w now' source' sink' type'"
  by (induction uids arbitrary: w) (simp_all add: split_beta recordAction_Action_find)








subsection \<open>Steps of a run\<close>

lemma currentCursor_of_idem:
  "currentCursor_of (Some (currentCursor_of cursor)) = currentCursor_of cursor"
  by (simp add: currentCursor_of_def split: option.splits)

lemma request_Nil:
  "outcomes e = [] \<Longrightarrow> request e c = (Succeed, e\<lparr>requests := requests e @ [c]\<rparr>)"
  by (simp add: request_def)

lemma request_Cons:
  "outcomes e = out # rest \<Longrightarrow>
     request e c = (out, e\<lparr>outcomes := rest, requests := requests e @ [c]\<rparr>)"
  by (simp add: request_def)

lemma request_outcomes:
  "request e c = (out, e1) \<Longrightarrow>
     (outcomes e = [] \<and> out = Succeed \<and> outcomes e1 = []) \<or> outcomes e = out # outcomes e1"
  by (auto simp: request_def split: list.splits)

lemma fetch_cursor_norm:
  "fetchAndStoreBlocks n tw now e w user bb (Some (currentCursor_of cursor)) =
   fetchAndStoreBlocks n tw now e w user bb cursor"
  by (cases n) (simp_all add: currentCursor_of_idem)

lemma fetch_more_fuel:
  "fetchAndStoreBlocks n tw now e w user bb cursor = Some x \<Longrightarrow>
   fetchAndStoreBlocks (n + k) tw now e w user bb cursor = Some x"
proof (induction n arbitrary: now e w bb cursor)
  case 0
  then show ?case by simp
next
  case (Suc n)
  from Suc.prems show ?case
    by (auto simp: Let_def split: prod.splits outcome.splits if_splits option.splits
        intro: Suc.IH)
qed

lemma fetch_step:
  "fetchAndStoreBlocks (Suc n) tw now e w user bb cursor =
     (case request e (currentCursor_of cursor) of
        (Succeed, e1) \<Rightarrow>
          (case handleIds
                  (snd (case bb of None \<Rightarrow> BlockBatch_create w (uid user) | Some b \<Rightarrow> (b, w)))
                  (fst (case bb of None \<Rightarrow> BlockBatch_create w (uid user) | Some b \<Rightarrow> (b, w)))
                  (currentCursor_of cursor)
                  (blocks_ids tw user (currentCursor_of cursor)) of
             (b', nextCursor, w2) \<Rightarrow>
               if nextCursor = ''0''
               then Some (Some (fst (finalizeBlockBatch tw w2 now b')), e1,
                          snd (finalizeBlockBatch tw w2 now b'))
               else fetchAndStoreBlocks n tw now e1 w2 user (Some b') (Some nextCursor))
      | (Fail statusCode, e1) \<Rightarrow>
          if statusCode = 429
          then (case bb of
                  None \<Rightarrow> Some (None, e1, w)
                | Some b \<Rightarrow>
                    fetchAndStoreBlocks n tw (now + 15 * 60 * 1000)
                      (e1\<lparr>waited := waited e1 + 15 * 60 * 1000\<rparr>)
                      w user (Some b) (Some (currentCursor_of cursor)))
          else Some (None, e1, w))"
  by (simp add: Let_def split_beta split: outcome.splits)

lemma fetch_resumed_step:
  "fetchAndStoreBlocks (Suc n) tw now e w user (Some b) cursor =
     (case request e (currentCursor_of cursor) of
        (Succeed, e1) \<Rightarrow>
          (case handleIds w b (currentCursor_of cursor)
                  (blocks_ids tw user (currentCursor_of cursor)) of
             (b', nextCursor, w2) \<Rightarrow>
               if nextCursor = ''0''
               then Some (Some (fst (finalizeBlockBatch tw w2 now b')), e1,
                          snd (finalizeBlockBatch tw w2 now b'))
               else fetchAndStoreBlocks n tw now e1 w2 user (Some b') (Some nextCursor))
      | (Fail statusCode, e1) \<Rightarrow>
          if statusCode = 429
          then fetchAndStoreBlocks n tw (now + 15 * 60 * 1000)
                 (e1\<lparr>waited := waited e1 + 15 * 60 * 1000\<rparr>) w user
                 (Some b) (Some (currentCursor_of cursor))
          else Some (None, e1, w))"
  by (simp add: Let_def split_beta split: outcome.splits)

lemma handleIds_nextCursor:
  "handleIds w b c res = (b', nc, w2) \<Longrightarrow> nc = snd res"
  by (auto simp: handleIds_def Let_def)

text \<open>
  A run returns: when the listing from the cursor on ends within k pages, k requests
  and one more for every outcome the run may meet are enough, whatever the outcomes.
\<close>

lemma fetch_returns_aux:
  "n = k + length (outcomes e) \<Longrightarrow> reaches_end k tw user (currentCursor_of cursor) \<Longrightarrow>
     \<exists>x. fetchAndStoreBlocks n tw now e w user bb cursor = Some x"
proof (induction n arbitrary: k e now w bb cursor rule: less_induct)
  case (less n)
  let ?cc = "currentCursor_of cursor"
  let ?cr = "case bb of None \<Rightarrow> BlockBatch_create w (uid user) | Some b \<Rightarrow> (b, w)"
  from less.prems(2) obtain k' where k: "k = Suc k'" by (cases k) auto
  with less.prems(1) obtain m where n: "n = Suc m" by simp
  obtain out e1 where req: "request e ?cc = (out, e1)" by (cases "request e ?cc")
  note oc = request_outcomes [OF req]
  show ?case
  proof (cases out)
    case Succeed
    obtain b' nc w2 where h: "handleIds (snd ?cr) (fst ?cr) ?cc (blocks_ids tw user ?cc) = (b', nc, w2)"
      by (cases "handleIds (snd ?cr) (fst ?cr) ?cc (blocks_ids tw user ?cc)")
    note nc = handleIds_nextCursor [OF h]
    show ?thesis
    proof (cases "nc = ''0''")
      case True
      then show ?thesis
        unfolding n by (simp add: fetch_step req Succeed h del: fetchAndStoreBlocks.simps)
    next
      case False
      with less.prems(2) nc have re: "reaches_end k' tw user (currentCursor_of (Some nc))"
        by (simp add: k)
      have "k' + length (outcomes e1) < n"
        using oc less.prems(1) k by auto
      from less.IH [OF this refl re, of now w2 "Some b'"]
      obtain x where "fetchAndStoreBlocks (k' + length (outcomes e1)) tw now e1 w2 user (Some b')
          (Some nc) = Some x"
        by blast
      moreover have "m = k' + length (outcomes e1) + (m - (k' + length (outcomes e1)))"
        using oc less.prems(1) k n by auto
      ultimately have "fetchAndStoreBlocks m tw now e1 w2 user (Some b') (Some nc) = Some x"
        using fetch_more_fuel by metis
      moreover have "fetchAndStoreBlocks (Suc m) tw now e w user bb cursor =
          fetchAndStoreBlocks m tw now e1 w2 user (Some b') (Some nc)"
        by (simp add: fetch_step req Succeed h False del: fetchAndStoreBlocks.simps)
      ultimately have "fetchAndStoreBlocks (Suc m) tw now e w user bb cursor = Some x"
        by (simp del: fetchAndStoreBlocks.simps)
      then show ?thesis
        unfolding n by (rule exI)
    qed
  next
    case (Fail statusCode)
    with oc have o: "outcomes e = Fail statusCode # outcomes e1" by auto
    show ?thesis
    proof (cases "statusCode = 429 \<and> bb \<noteq> None")
      case True
      then obtain b where b: "bb = Some b" by auto
      let ?e2 = "e1\<lparr>waited := waited e1 + 15 * 60 * 1000\<rparr>"
      have re: "reaches_end k tw user (currentCursor_of (Some ?cc))"
        using less.prems(2) by (simp add: currentCursor_of_idem)
      have m: "m = k + length (outcomes ?e2)" using o less.prems(1) n by simp
      then have "m < n" using n by simp
      from less.IH [OF this m re, of "now + 15 * 60 * 1000" w "Some b"]
      show ?thesis
        unfolding n using True
        by (simp add: fetch_step req Fail b del: fetchAndStoreBlocks.simps)
    next
      case False
      then show ?thesis
        unfolding n
        by (cases bb) (auto simp: fetch_step req Fail simp del: fetchAndStoreBlocks.simps)
    qed
  qed
qed

lemma fetch_returns:
  "reaches_end k tw user (currentCursor_of cursor) \<Longrightarrow>
     \<exists>x. fetchAndStoreBlocks (k + length (outcomes e)) tw now e w user bb cursor = Some x"
  by (rule fetch_returns_aux [OF refl])

subsection \<open>Single flight\<close>

lemma handleIds_counters:
  "handleIds w b c res = (b', nc, w') \<Longrightarrow>
     next_BlockBatch_id w' = next_BlockBatch_id w \<and> fetches_started w' = fetches_started w"
  by (auto simp: handleIds_def BlockBatch_save_def Let_def)

lemma destroyOldBlocks_next:
  "next_BlockBatch_id (destroyOldBlocks w u) = next_BlockBatch_id w"
  by (simp add: destroyOldBlocks_def BlockBatch_destroy_def Let_def)

lemma destroyOldBlocks_started:
  "fetches_started (destroyOldBlocks w u) = fetches_started w"
  by (simp add: destroyOldBlocks_def BlockBatch_destroy_def Let_def)

lemma finalize_counters:
  "finalizeBlockBatch tw w now b = (b', w') \<Longrightarrow>
     next_BlockBatch_id w' = next_BlockBatch_id w \<and> fetches_started w' = fetches_started w"
  using diffBatchWithPrevious_frame [of "BlockBatch_save w (b\<lparr>bb_complete := True\<rparr>)" tw now
      "b\<lparr>bb_complete := True\<rparr>"]
  by (auto simp: finalizeBlockBatch_def Let_def split_beta destroyOldBlocks_next
      destroyOldBlocks_started actions_only_def BlockBatch_save_def)

lemma fetch_resumed_creates_nothing:
  "fetchAndStoreBlocks fuel tw now e w user (Some b) cursor = Some (r, e', w') \<Longrightarrow>
     next_BlockBatch_id w' = next_BlockBatch_id w \<and> fetches_started w' = fetches_started w"
proof (induction fuel arbitrary: now e w b cursor)
  case 0
  then show ?case by simp
next
  case (Suc fuel)
  from Suc.prems show ?case
    by (auto simp: Let_def split: prod.splits outcome.splits if_splits
        dest!: Suc.IH handleIds_counters finalize_counters)
qed

lemma fetch_creates_one:
  assumes "fetchAndStoreBlocks fuel tw now e w user None cursor = Some (r, e', w')"
  shows "next_BlockBatch_id w' =
           (if first_request_succeeds e then Suc (next_BlockBatch_id w) else next_BlockBatch_id w) \<and>
         fetches_started w' = fetches_started w"
proof (cases fuel)
  case 0
  with assms show ?thesis by simp
next
  case (Suc n)
  with assms show ?thesis
    by (auto simp: Let_def first_request_succeeds_def request_def BlockBatch_create_def
        split: prod.splits outcome.splits if_splits list.splits
        dest!: fetch_resumed_creates_nothing handleIds_counters finalize_counters)
qed

text \<open>
  C5 (as amended). \<^verbatim>\<open>updateBlocks\<close> for an account that is registered in
  \<^verbatim>\<open>activeFetches\<close> starts nothing and changes nothing, and returns a promise resolved
  with \<^verbatim>\<open>null\<close> (not the registered handle). Of two calls in a row for an unregistered
  account, the first starts the one orchestration run and registers it, the second
  returns at the guard. That run, when the listing ends within k pages, returns within
  k requests plus one for every outcome it may meet; it is the only run started, and
  it has created one snapshot when its first request succeeded and none otherwise.
\<close>

theorem single_flight:
  "(activeFetches wm (uid user) = Some hm \<longrightarrow>
      updateBlocks_start wm user = (ResolvedNull, wm) \<and>
      updateBlocks fuel tw now e wm user = Some (ResolvedNull, None, e, wm)) \<and>
   (activeFetches w (uid user) = None \<longrightarrow>
      (let (h1, w1) = updateBlocks_start w user
       in h1 = Fetch (fetches_started w) \<and>
          activeFetches w1 (uid user) = Some (fetches_started w) \<and>
          fetches_started w1 = Suc (fetches_started w) \<and>
          updateBlocks_start w1 user = (ResolvedNull, w1))) \<and>
   (activeFetches w (uid user) = None \<and> reaches_end k tw' user ''-1'' \<longrightarrow>
      (\<exists>r e'' w2.
          updateBlocks (k + length (outcomes e')) tw' now' e' w user =
            Some (Fetch (fetches_started w), r, e'', w2) \<and>
          fetches_started w2 = Suc (fetches_started w) \<and>
          next_BlockBatch_id w2 =
            (if first_request_succeeds e' then Suc (next_BlockBatch_id w)
             else next_BlockBatch_id w)))"
proof (intro conjI impI)
  assume "activeFetches wm (uid user) = Some hm"
  then show "updateBlocks_start wm user = (ResolvedNull, wm)"
    and "updateBlocks fuel tw now e wm user = Some (ResolvedNull, None, e, wm)"
    by (simp_all add: updateBlocks_def updateBlocks_start_def)
next
  assume free: "activeFetches w (uid user) = None"
  then show "let (h1, w1) = updateBlocks_start w user
       in h1 = Fetch (fetches_started w) \<and>
          activeFetches w1 (uid user) = Some (fetches_started w) \<and>
          fetches_started w1 = Suc (fetches_started w) \<and>
          updateBlocks_start w1 user = (ResolvedNull, w1)"
    by (simp add: updateBlocks_start_def)
next
  assume a: "activeFetches w (uid user) = None \<and> reaches_end k tw' user ''-1''"
  define w1 where "w1 = w\<lparr>activeFetches := (activeFetches w)(uid user \<mapsto> fetches_started w),
              fetches_started := Suc (fetches_started w)\<rparr>"
  have start: "updateBlocks_start w user = (Fetch (fetches_started w), w1)"
    using a by (simp add: updateBlocks_start_def w1_def)
  from a have "reaches_end k tw' user (currentCursor_of None)"
    by (simp add: currentCursor_of_def)
  from fetch_returns [OF this, of e' now' w1 None]
  obtain r e'' w2 where run: "fetchAndStoreBlocks (k + length (outcomes e')) tw' now' e' w1 user
      None None = Some (r, e'', w2)"
    by (metis prod_cases3)
  have w1: "next_BlockBatch_id w1 = next_BlockBatch_id w"
    "fetches_started w1 = Suc (fetches_started w)"
    by (simp_all add: w1_def)
  have "updateBlocks (k + length (outcomes e')) tw' now' e' w user =
            Some (Fetch (fetches_started w), r, e'', w2)"
    by (simp add: updateBlocks_def start run)
  with fetch_creates_one [OF run] w1
  show "\<exists>r e'' w2.
          updateBlocks (k + length (outcomes e')) tw' now' e' w user =
            Some (Fetch (fetches_started w), r, e'', w2) \<and>
          fetches_started w2 = Suc (fetches_started w) \<and>
          next_BlockBatch_id w2 =
            (if first_request_succeeds e' then Suc (next_BlockBatch_id w)
             else next_BlockBatch_id w)"
    by auto
qed

theorem single_flight_witness:
  "updateBlocks (Suc 0) one_page 0 no_log (empty_world\<lparr>activeFetches := [''u1'' \<mapsto> 0]\<rparr>) user1 =
     Some (ResolvedNull, None, no_log, empty_world\<lparr>activeFetches := [''u1'' \<mapsto> 0]\<rparr>) \<and>
   (let (h1, w1) = updateBlocks_start empty_world user1
    in h1 = Fetch 0 \<and> activeFetches w1 ''u1'' = Some 0 \<and> fetches_started w1 = 1 \<and>
       updateBlocks_start w1 user1 = (ResolvedNull, w1)) \<and>
   (\<exists>r e'' w2.
      updateBlocks (Suc 0 + length (outcomes no_log)) one_page 0 no_log empty_world user1 =
        Some (Fetch 0, r, e'', w2) \<and>
      fetches_started w2 = 1 \<and> next_BlockBatch_id w2 = 2) \<and>
   (\<exists>r e'' w2.
      updateBlocks (Suc 0 + length (outcomes (no_log\<lparr>outcomes := [Fail 500]\<rparr>))) one_page 0
          (no_log\<lparr>outcomes := [Fail 500]\<rparr>) empty_world user1 =
        Some (Fetch 0, r, e'', w2) \<and>
      fetches_started w2 = 1 \<and> next_BlockBatch_id w2 = 1)"
proof -
  have busy: "activeFetches (empty_world\<lparr>activeFetches := [''u1'' \<mapsto> 0]\<rparr>) (uid user1) = Some 0"
    by (simp add: user1_def)
  have free: "activeFetches empty_world (uid user1) = None"
    by (simp add: empty_world_def)
  have ends: "reaches_end (Suc 0) one_page user1 ''-1''"
    by (simp add: one_page_def)
  have first: "first_request_succeeds no_log"
    "\<not> first_request_succeeds (no_log\<lparr>outcomes := [Fail 500]\<rparr>)"
    by (simp_all add: first_request_succeeds_def no_log_def)
  note sf = single_flight [where w = empty_world and user = user1
      and wm = "empty_world\<lparr>activeFetches := [''u1'' \<mapsto> 0]\<rparr>" and hm = 0
      and fuel = "Suc 0" and tw = one_page and now = 0 and e = no_log
      and k = "Suc 0" and tw' = one_page and now' = 0 and e' = no_log]
  note sf_failed = single_flight [where w = empty_world and user = user1
      and k = "Suc 0" and tw' = one_page and now' = 0 and e' = "no_log\<lparr>outcomes := [Fail 500]\<rparr>"]
  have "updateBlocks (Suc 0) one_page 0 no_log (empty_world\<lparr>activeFetches := [''u1'' \<mapsto> 0]\<rparr>) user1 =
     Some (ResolvedNull, None, no_log, empty_world\<lparr>activeFetches := [''u1'' \<mapsto> 0]\<rparr>)"
    using sf busy by blast
  moreover have "let (h1, w1) = updateBlocks_start empty_world user1
    in h1 = Fetch 0 \<and> activeFetches w1 ''u1'' = Some 0 \<and> fetches_started w1 = 1 \<and>
       updateBlocks_start w1 user1 = (ResolvedNull, w1)"
    using sf free by (simp add: split_beta) (simp add: empty_world_def user1_def)
  moreover have "\<exists>r e'' w2.
      updateBlocks (Suc 0 + length (outcomes no_log)) one_page 0 no_log empty_world user1 =
        Some (Fetch 0, r, e'', w2) \<and>
      fetches_started w2 = 1 \<and> next_BlockBatch_id w2 = 2"
    using sf free ends first by (simp add: empty_world_def numeral_2_eq_2)
  moreover have "\<exists>r e'' w2.
      updateBlocks (Suc 0 + length (outcomes (no_log\<lparr>outcomes := [Fail 500]\<rparr>))) one_page 0
          (no_log\<lparr>outcomes := [Fail 500]\<rparr>) empty_world user1 =
        Some (Fetch 0, r, e'', w2) \<and>
      fetches_started w2 = 1 \<and> next_BlockBatch_id w2 = 1"
    using sf_failed free ends first by (simp add: empty_world_def)
  ultimately show ?thesis by blast
qed

text \<open>
  The second of two calls in a row does not return the handle the first one returned.
\<close>

theorem single_flight_counterexample:
  "fst (updateBlocks_start empty_world user1) = Fetch 0 \<and>
   fst (updateBlocks_start (snd (updateBlocks_start empty_world user1)) user1) = ResolvedNull"
  by (simp add: updateBlocks_start_def empty_world_def user1_def)

subsection \<open>Retention\<close>

lemma filter_drop_distinct:
  "distinct (map f xs) \<Longrightarrow> filter (\<lambda>r. f r \<notin> f ` set (drop n xs)) xs = take n xs"
proof (induction xs arbitrary: n)
  case Nil
  show ?case by simp
next
  case (Cons x xs)
  show ?case
  proof (cases n)
    case 0
    then show ?thesis by (auto simp: filter_empty_conv)
  next
    case (Suc m)
    have notin: "f x \<notin> f ` set (drop m xs)"
      using Cons.prems by (auto dest: in_set_dropD)
    from Cons.IH [of m] Cons.prems have "filter (\<lambda>r. f r \<notin> f ` set (drop m xs)) xs = take m xs"
      by simp
    with notin show ?thesis by (simp add: Suc)
  qed
qed

lemma order_id_desc_filter:
  "order_id_desc (filter P bs) = filter P (order_id_desc bs)"
  by (simp add: order_id_desc_def filter_sort rev_filter [symmetric])

lemma distinct_order_id_desc:
  "distinct (map bb_id bs) \<Longrightarrow> distinct (map bb_id (order_id_desc bs))"
  by (simp add: order_id_desc_def distinct_map)

lemma set_order_id_desc [simp]: "set (order_id_desc bs) = set bs"
  by (simp add: order_id_desc_def)

lemma destroyOldBlocks_tables:
  "BlockBatches (destroyOldBlocks w u) =
     filter (\<lambda>r. bb_id r \<notin> bb_id ` set (drop 4 (account_batches w u))) (BlockBatches w) \<and>
   Blocks (destroyOldBlocks w u) =
     filter (\<lambda>r. blk_BlockBatchId r \<notin> bb_id ` set (drop 4 (account_batches w u))) (Blocks w)"
  by (simp add: destroyOldBlocks_def BlockBatch_destroy_def account_batches_def Let_def pluck_def)

lemma destroyOldBlocks_account:
  assumes "distinct (map bb_id (BlockBatches w))"
  shows "account_batches (destroyOldBlocks w u) u = take 4 (account_batches w u)"
proof -
  let ?L = "account_batches w u"
  have d: "distinct (map bb_id ?L)"
    unfolding account_batches_def
    by (rule distinct_order_id_desc) (use assms in \<open>simp add: distinct_map_filter\<close>)
  have "account_batches (destroyOldBlocks w u) u =
      filter (\<lambda>r. bb_id r \<notin> bb_id ` set (drop 4 ?L)) ?L"
    by (simp add: account_batches_def [of "destroyOldBlocks w u"] destroyOldBlocks_tables
        order_id_desc_filter)
       (auto simp add: account_batches_def order_id_desc_filter intro!: filter_cong)
  also have "\<dots> = take 4 ?L" by (rule filter_drop_distinct [OF d])
  finally show ?thesis .
qed

lemma destroyOldBlocks_others:
  assumes "distinct (map bb_id (BlockBatches w))"
  shows "filter (\<lambda>b. bb_source_uid b \<noteq> u) (BlockBatches (destroyOldBlocks w u)) =
         filter (\<lambda>b. bb_source_uid b \<noteq> u) (BlockBatches w)"
proof -
  have "bb_id r \<notin> bb_id ` set (drop 4 (account_batches w u))"
    if "r \<in> set (BlockBatches w)" "bb_source_uid r \<noteq> u" for r
  proof
    assume "bb_id r \<in> bb_id ` set (drop 4 (account_batches w u))"
    then obtain r' where r': "r' \<in> set (drop 4 (account_batches w u))" "bb_id r' = bb_id r"
      by auto
    then have "r' \<in> set (BlockBatches w)" "bb_source_uid r' = u"
      by (auto dest!: in_set_dropD simp: account_batches_def)
    with that r' assms show False
      by (auto simp: distinct_map inj_on_def)
  qed
  then show ?thesis
    by (auto simp: destroyOldBlocks_tables intro!: filter_cong)
qed

lemma in_progress_old:
  assumes "in_progress w b old"
  shows "list_all (\<lambda>r. bb_id r < bb_id b) old" and "distinct (map bb_id old)"
    and "bb_id b \<notin> bb_id ` set old"
proof -
  from assms have bs: "BlockBatches w = old @ [b]"
    and d: "distinct (map bb_id (old @ [b]))"
    and lt: "\<forall>r \<in> set old. bb_id r < Suc (bb_id b)"
    by (auto simp: in_progress_def store_ok_def list_all_iff)
  from d show "distinct (map bb_id old)" and notin: "bb_id b \<notin> bb_id ` set old"
    by auto
  have "bb_id r < bb_id b" if "r \<in> set old" for r
  proof -
    from that lt have "bb_id r < Suc (bb_id b)" by blast
    moreover from that notin have "bb_id r \<noteq> bb_id b" by (auto simp: image_iff)
    ultimately show ?thesis by simp
  qed
  then show "list_all (\<lambda>r. bb_id r < bb_id b) old"
    by (simp add: list_all_iff)
qed

lemma save_last:
  assumes "bb_id b \<notin> bb_id ` set old" and "bb_id b' = bb_id b"
  shows "map (\<lambda>r. if bb_id r = bb_id b' then b' else r) (old @ [b]) = old @ [b']"
proof -
  have "map (\<lambda>r. if bb_id r = bb_id b' then b' else r) old = old"
    using assms by (induction old) auto
  with assms show ?thesis by simp
qed

lemma BlockBatch_create_in_progress:
  assumes "store_ok w"
  shows "in_progress (snd (BlockBatch_create w u)) (fst (BlockBatch_create w u)) (BlockBatches w)"
    and "bb_source_uid (fst (BlockBatch_create w u)) = u"
    and "bb_id (fst (BlockBatch_create w u)) = next_BlockBatch_id w"
  using assms
  by (auto simp: BlockBatch_create_def in_progress_def store_ok_def Let_def list_all_iff)

lemma handleIds_in_progress:
  assumes "in_progress w b old" and "handleIds w b c res = (b', nc, w2)"
  shows "in_progress w2 b' old \<and> bb_id b' = bb_id b \<and> bb_source_uid b' = bb_source_uid b"
proof -
  let ?b = "b\<lparr>bb_currentCursor := Some c, bb_size := bb_size b + length (fst res)\<rparr>"
  have b': "b' = ?b" using assms(2) by (auto simp: handleIds_def Let_def)
  have "BlockBatches w2 = map (\<lambda>r. if bb_id r = bb_id ?b then ?b else r) (BlockBatches w)"
    using assms(2) by (auto simp: handleIds_def Let_def BlockBatch_save_def)
  also have "BlockBatches w = old @ [b]" using assms(1) by (simp add: in_progress_def)
  also have "map (\<lambda>r. if bb_id r = bb_id ?b then ?b else r) (old @ [b]) = old @ [?b]"
    by (rule save_last [OF in_progress_old(3) [OF assms(1)]]) simp
  finally have bs: "BlockBatches w2 = old @ [?b]" .
  have blocks: "Blocks w2 = Blocks w @ map (\<lambda>i. \<lparr>blk_sink_uid = i, blk_BlockBatchId = bb_id b\<rparr>) (fst res)"
    using assms(2) by (auto simp: handleIds_def Let_def BlockBatch_save_def)
  have nxt: "next_BlockBatch_id w2 = next_BlockBatch_id w"
    using assms(2) by (auto simp: handleIds_def Let_def BlockBatch_save_def)
  have "store_ok w2"
    using assms(1) unfolding in_progress_def store_ok_def bs blocks nxt
    by (auto simp: list_all_iff)
  with bs nxt assms(1) b' show ?thesis
    by (simp add: in_progress_def)
qed

lemma insort_key_snoc:
  "f y < f x \<Longrightarrow> insort_key f y (zs @ [x]) = insort_key f y zs @ [x]"
  for f :: "'a \<Rightarrow> nat"
  by (induction zs) auto

lemma sort_key_snoc:
  "list_all (\<lambda>y. f y < f x) xs \<Longrightarrow> sort_key f (xs @ [x]) = sort_key f xs @ [x]"
  for f :: "'a \<Rightarrow> nat"
proof (induction xs)
  case Nil
  show ?case by simp
next
  case (Cons y xs)
  then show ?case by (simp add: insort_key_snoc)
qed

lemma order_id_desc_snoc:
  "list_all (\<lambda>r. bb_id r < bb_id b) old \<Longrightarrow> order_id_desc (old @ [b]) = b # order_id_desc old"
  by (simp add: order_id_desc_def sort_key_snoc)

lemma store_ok_cong:
  "BlockBatches w' = BlockBatches w \<Longrightarrow> Blocks w' = Blocks w \<Longrightarrow>
   next_BlockBatch_id w' = next_BlockBatch_id w \<Longrightarrow> store_ok w' = store_ok w"
  by (simp add: store_ok_def)

lemma account_batches_cong:
  "BlockBatches w' = BlockBatches w \<Longrightarrow> account_batches w' u = account_batches w u"
  by (simp add: account_batches_def)

lemma destroyOldBlocks_store_ok:
  assumes "store_ok w"
  shows "store_ok (destroyOldBlocks w u)"
proof -
  let ?D = "bb_id ` set (drop 4 (account_batches w u))"
  note t = destroyOldBlocks_tables [of w u]
  have 1: "distinct (map bb_id (BlockBatches (destroyOldBlocks w u)))"
    using assms by (simp add: t store_ok_def distinct_map_filter)
  have 2: "list_all (\<lambda>b. bb_id b < next_BlockBatch_id (destroyOldBlocks w u))
      (BlockBatches (destroyOldBlocks w u))"
    using assms by (auto simp: t store_ok_def destroyOldBlocks_next list_all_iff)
  have 3: "list_all (\<lambda>r. blk_BlockBatchId r \<in> bb_id ` set (BlockBatches (destroyOldBlocks w u)))
      (Blocks (destroyOldBlocks w u))"
    using assms by (auto simp: t store_ok_def list_all_iff)
  from 1 2 3 show ?thesis by (simp add: store_ok_def)
qed

lemma finalize_sealed:
  assumes "in_progress w b old" and "bb_source_uid b = u"
    and "finalizeBlockBatch tw w now b = (sealed, w')"
  shows "sealed = b\<lparr>bb_complete := True\<rparr>"
    and "account_batches w' u =
           take 4 (sealed # order_id_desc (filter (\<lambda>r. bb_source_uid r = u) old))"
    and "store_ok w'"
    and "filter (\<lambda>r. bb_source_uid r \<noteq> u) (BlockBatches w') =
           filter (\<lambda>r. bb_source_uid r \<noteq> u) old"
    and "next_BlockBatch_id w' = next_BlockBatch_id w"
proof -
  let ?s = "b\<lparr>bb_complete := True\<rparr>"
  let ?w1 = "BlockBatch_save w ?s"
  let ?w2 = "snd (diffBatchWithPrevious tw ?w1 now ?s)"
  let ?w3 = "destroyOldBlocks ?w2 u"
  from assms(3) show s: "sealed = ?s"
    by (auto simp: finalizeBlockBatch_def Let_def split_beta)
  from assms(2,3) have w': "w' = ?w3\<lparr>activeFetches := (activeFetches ?w3)(u := None)\<rparr>"
    by (auto simp: finalizeBlockBatch_def Let_def split_beta)
  have bs1: "BlockBatches ?w1 = old @ [?s]"
    using assms(1) save_last [OF in_progress_old(3) [OF assms(1)], of ?s]
    by (simp add: BlockBatch_save_def in_progress_def)
  have ok: "store_ok w" and nxt: "next_BlockBatch_id w = Suc (bb_id b)"
    and bs: "BlockBatches w = old @ [b]"
    using assms(1) by (simp_all add: in_progress_def)
  have ok1: "store_ok ?w1"
    using ok unfolding store_ok_def bs1 bs
    by (simp add: BlockBatch_save_def)
  have fr: "actions_only ?w1 ?w2" by (rule diffBatchWithPrevious_frame)
  then have same: "BlockBatches ?w2 = old @ [?s]" "Blocks ?w2 = Blocks ?w1"
    "next_BlockBatch_id ?w2 = next_BlockBatch_id w"
    by (simp_all add: actions_only_def bs1) (simp add: BlockBatch_save_def)
  have ok2: "store_ok ?w2"
    using ok1 store_ok_cong [of ?w2 ?w1] fr by (simp add: actions_only_def)
  have ok3: "store_ok ?w3" by (rule destroyOldBlocks_store_ok [OF ok2])
  then show "store_ok w'"
    using store_ok_cong [of w' ?w3] by (simp add: w')
  have d2: "distinct (map bb_id (BlockBatches ?w2))"
    using ok2 by (simp add: store_ok_def)
  have "account_batches ?w2 u = ?s # order_id_desc (filter (\<lambda>r. bb_source_uid r = u) old)"
    using assms(2) in_progress_old(1) [OF assms(1)]
    by (simp add: account_batches_def same(1) order_id_desc_snoc list_all_iff)
  with destroyOldBlocks_account [OF d2, of u]
  have "account_batches ?w3 u =
      take 4 (?s # order_id_desc (filter (\<lambda>r. bb_source_uid r = u) old))"
    by simp
  then show "account_batches w' u =
           take 4 (sealed # order_id_desc (filter (\<lambda>r. bb_source_uid r = u) old))"
    using account_batches_cong [of w' ?w3 u] by (simp add: w' s)
  from destroyOldBlocks_others [OF d2, of u]
  show "filter (\<lambda>r. bb_source_uid r \<noteq> u) (BlockBatches w') =
           filter (\<lambda>r. bb_source_uid r \<noteq> u) old"
    using assms(2) by (simp add: w' same(1))
  show "next_BlockBatch_id w' = next_BlockBatch_id w"
    by (simp add: w' destroyOldBlocks_next same(3))
qed

lemma fetch_resumed_sealed:
  assumes "in_progress w b old" and "bb_source_uid b = uid user"
    and "fetchAndStoreBlocks fuel tw now e w user (Some b) cursor = Some (Some sealed, e', w')"
  shows "account_batches w' (uid user) =
           take 4 (sealed # order_id_desc (filter (\<lambda>r. bb_source_uid r = uid user) old)) \<and>
         store_ok w' \<and>
         filter (\<lambda>r. bb_source_uid r \<noteq> uid user) (BlockBatches w') =
           filter (\<lambda>r. bb_source_uid r \<noteq> uid user) old \<and>
         bb_id sealed = bb_id b \<and> bb_complete sealed \<and>
         next_BlockBatch_id w' = Suc (bb_id b)"
  using assms
proof (induction fuel arbitrary: now e w b cursor)
  case 0
  then show ?case by simp
next
  case (Suc fuel)
  let ?cc = "currentCursor_of cursor"
  obtain out e1 where req: "request e ?cc = (out, e1)" by (cases "request e ?cc")
  show ?case
  proof (cases out)
    case Succeed
    obtain b' nc w2 where h: "handleIds w b ?cc (blocks_ids tw user ?cc) = (b', nc, w2)"
      by (cases "handleIds w b ?cc (blocks_ids tw user ?cc)")
    from handleIds_in_progress [OF Suc.prems(1) h] Suc.prems(2)
    have ip: "in_progress w2 b' old" and id: "bb_id b' = bb_id b"
      and src: "bb_source_uid b' = uid user"
      by simp_all
    show ?thesis
    proof (cases "nc = ''0''")
      case True
      from Suc.prems(3) have fin: "finalizeBlockBatch tw w2 now b' = (sealed, w')"
        by (simp add: fetch_resumed_step req Succeed h True prod_eq_iff
            del: fetchAndStoreBlocks.simps)
      from finalize_sealed [OF ip src fin] ip id show ?thesis
        by (simp add: in_progress_def)
    next
      case False
      from Suc.prems(3)
      have "fetchAndStoreBlocks fuel tw now e1 w2 user (Some b') (Some nc) =
          Some (Some sealed, e', w')"
        by (simp add: fetch_resumed_step req Succeed h False del: fetchAndStoreBlocks.simps)
      from Suc.IH [OF ip src this] id show ?thesis by simp
    qed
  next
    case (Fail statusCode)
    show ?thesis
    proof (cases "statusCode = 429")
      case True
      from Suc.prems(3)
      have "fetchAndStoreBlocks fuel tw (now + 15 * 60 * 1000)
          (e1\<lparr>waited := waited e1 + 15 * 60 * 1000\<rparr>) w user
          (Some b) (Some ?cc) = Some (Some sealed, e', w')"
        by (simp add: fetch_resumed_step req Fail True del: fetchAndStoreBlocks.simps)
      from Suc.IH [OF Suc.prems(1,2) this] show ?thesis .
    next
      case False
      with Suc.prems(3) show ?thesis
        by (simp add: fetch_resumed_step req Fail del: fetchAndStoreBlocks.simps)
    qed
  qed
qed

lemma updateBlocks_sealed:
  assumes "store_ok w"
    and "updateBlocks fuel tw now e w user = Some (h, Some sealed, e', w')"
  shows "account_batches w' (uid user) = take 4 (sealed # account_batches w (uid user)) \<and>
         store_ok w' \<and>
         filter (\<lambda>r. bb_source_uid r \<noteq> uid user) (BlockBatches w') =
           filter (\<lambda>r. bb_source_uid r \<noteq> uid user) (BlockBatches w) \<and>
         bb_id sealed = next_BlockBatch_id w \<and> bb_complete sealed \<and>
         next_BlockBatch_id w' = Suc (next_BlockBatch_id w)"
proof (cases "activeFetches w (uid user)")
  case (Some k)
  with assms(2) show ?thesis
    by (simp add: updateBlocks_def updateBlocks_start_def)
next
  case None
  let ?w1 = "w\<lparr>activeFetches := (activeFetches w)(uid user \<mapsto> fetches_started w),
              fetches_started := Suc (fetches_started w)\<rparr>"
  let ?cc = "currentCursor_of None"
  let ?cr = "BlockBatch_create ?w1 (uid user)"
  have start: "updateBlocks_start w user = (Fetch (fetches_started w), ?w1)"
    using None by (simp add: updateBlocks_start_def)
  from assms(2) have run: "fetchAndStoreBlocks fuel tw now e ?w1 user None None =
      Some (Some sealed, e', w')"
    by (auto simp: updateBlocks_def start split: option.splits)
  then obtain m where fuel: "fuel = Suc m" by (cases fuel) auto
  have ok1: "store_ok ?w1" using assms(1) store_ok_cong [of ?w1 w] by simp
  have same: "BlockBatches ?w1 = BlockBatches w" "next_BlockBatch_id ?w1 = next_BlockBatch_id w"
    by simp_all
  obtain out e1 where req: "request e ?cc = (out, e1)" by (cases "request e ?cc")
  have out: "out = Succeed"
    using run unfolding fuel
    by (cases out)
      (auto simp: fetch_step req simp del: fetchAndStoreBlocks.simps split: if_splits)
  obtain b' nc w2 where hd: "handleIds (snd ?cr) (fst ?cr) ?cc (blocks_ids tw user ?cc) = (b', nc, w2)"
    by (cases "handleIds (snd ?cr) (fst ?cr) ?cc (blocks_ids tw user ?cc)")
  note cr = BlockBatch_create_in_progress [OF ok1, of "uid user"]
  from handleIds_in_progress [OF cr(1) hd] cr(2,3)
  have ip: "in_progress w2 b' (BlockBatches w)" and id: "bb_id b' = next_BlockBatch_id w"
    and src: "bb_source_uid b' = uid user"
    by (simp_all add: same)
  show ?thesis
  proof (cases "nc = ''0''")
    case True
    from run have fin: "finalizeBlockBatch tw w2 now b' = (sealed, w')"
      unfolding fuel
      by (simp add: fetch_step req out hd True prod_eq_iff del: fetchAndStoreBlocks.simps)
    from finalize_sealed [OF ip src fin] ip id show ?thesis
      by (simp add: in_progress_def account_batches_def)
  next
    case False
    from run
    have "fetchAndStoreBlocks m tw now e1 w2 user (Some b') (Some nc) = Some (Some sealed, e', w')"
      unfolding fuel
      by (simp add: fetch_step req out hd False del: fetchAndStoreBlocks.simps)
    from fetch_resumed_sealed [OF ip src this] id show ?thesis
      by (simp add: account_batches_def)
  qed
qed

lemma take_append_take: "take n (xs @ take n ys) = take n (xs @ ys)"
  by (simp add: min_def)

lemma run_syncs_sealed:
  assumes "store_ok w" and "run_syncs ps w user = Some (ss, w')"
    and "length (account_batches w (uid user)) \<le> 4"
  shows "account_batches w' (uid user) = take 4 (rev ss @ account_batches w (uid user)) \<and>
         store_ok w' \<and> length ss = length ps \<and>
         filter (\<lambda>r. bb_source_uid r \<noteq> uid user) (BlockBatches w') =
           filter (\<lambda>r. bb_source_uid r \<noteq> uid user) (BlockBatches w) \<and>
         map bb_id ss = [next_BlockBatch_id w ..< next_BlockBatch_id w + length ps] \<and>
         list_all bb_complete ss"
  using assms
proof (induction ps arbitrary: w ss)
  case Nil
  then show ?case by simp
next
  case (Cons p ps)
  obtain fuel tw now e where p: "p = (fuel, tw, now, e)" by (cases p)
  from Cons.prems(2) obtain h sealed e' w1 ss' where
    run: "updateBlocks fuel tw now e w user = Some (h, Some sealed, e', w1)"
    and rest: "run_syncs ps w1 user = Some (ss', w')"
    and ss: "ss = sealed # ss'"
    by (auto simp: p split: option.splits)
  note one = updateBlocks_sealed [OF Cons.prems(1) run]
  from one have ok1: "store_ok w1" by simp
  from one have "length (account_batches w1 (uid user)) \<le> 4" by simp
  note more = Cons.IH [OF ok1 rest this]
  have "account_batches w' (uid user) =
      take 4 (rev ss' @ take 4 (sealed # account_batches w (uid user)))"
    using more one by simp
  also have "\<dots> = take 4 (rev ss @ account_batches w (uid user))"
    by (simp only: take_append_take ss) simp
  finally have acct: "account_batches w' (uid user) =
      take 4 (rev ss @ account_batches w (uid user))" .
  have nxt: "next_BlockBatch_id w1 = Suc (next_BlockBatch_id w)"
    and sid: "bb_id sealed = next_BlockBatch_id w"
    using one by simp_all
  have "map bb_id ss' = [next_BlockBatch_id w1 ..< next_BlockBatch_id w1 + length ps]"
    using more by (simp del: upt_Suc)
  moreover have "[next_BlockBatch_id w ..< next_BlockBatch_id w + length (p # ps)] =
      next_BlockBatch_id w # [Suc (next_BlockBatch_id w) ..< next_BlockBatch_id w + length (p # ps)]"
    by (rule upt_conv_Cons) simp
  ultimately
  have ids: "map bb_id ss = [next_BlockBatch_id w ..< next_BlockBatch_id w + length (p # ps)]"
    by (simp add: ss nxt sid del: upt_Suc)
  have others: "filter (\<lambda>r. bb_source_uid r \<noteq> uid user) (BlockBatches w') =
           filter (\<lambda>r. bb_source_uid r \<noteq> uid user) (BlockBatches w)"
    using more one by simp
  have "store_ok w'" "length ss = length (p # ps)" "list_all bb_complete ss"
    using more one by (simp_all add: ss del: upt_Suc)
  with acct ids others show ?case
    by blast
qed


lemma six_syncs_entries:
  assumes ok0: "store_ok w0" and ok6: "store_ok w6"
    and acct: "account_batches w6 u = rev (drop 2 ss)"
    and others: "filter (\<lambda>r. bb_source_uid r \<noteq> u) (BlockBatches w6) =
           filter (\<lambda>r. bb_source_uid r \<noteq> u) (BlockBatches w0)"
    and ids: "map bb_id ss = [next_BlockBatch_id w0 ..< next_BlockBatch_id w0 + length ss]"
  shows "list_all (\<lambda>r. blk_BlockBatchId r \<notin> bb_id ` set (take 2 ss)) (Blocks w6)"
proof -
  have "distinct (map bb_id ss)"
    by (simp only: ids distinct_upt)
  then have "distinct (map bb_id (take 2 ss) @ map bb_id (drop 2 ss))"
    by (simp only: map_append [symmetric] append_take_drop_id)
  then have d: "bb_id ` set (take 2 ss) \<inter> bb_id ` set (drop 2 ss) = {}"
    by (simp only: distinct_append set_map)
  have False if r: "r \<in> set (Blocks w6)" and s: "s \<in> set (take 2 ss)"
    and eq: "blk_BlockBatchId r = bb_id s" for r s
  proof -
    from ok6 r obtain x where x: "x \<in> set (BlockBatches w6)" "bb_id x = blk_BlockBatchId r"
      by (auto simp: store_ok_def list_all_iff)
    show False
    proof (cases "bb_source_uid x = u")
      case True
      with x(1) have "x \<in> set (account_batches w6 u)"
        by (simp add: account_batches_def)
      then have "x \<in> set (drop 2 ss)" by (simp add: acct)
      then have "bb_id x \<in> bb_id ` set (drop 2 ss)" by (rule imageI)
      moreover from s have "bb_id s \<in> bb_id ` set (take 2 ss)" by (rule imageI)
      ultimately show False
        using d x(2) eq by auto
    next
      case False
      with x(1) have "x \<in> set (filter (\<lambda>r. bb_source_uid r \<noteq> u) (BlockBatches w6))"
        by simp
      then have "x \<in> set (BlockBatches w0)" by (simp add: others)
      with ok0 have lt: "bb_id x < next_BlockBatch_id w0"
        by (auto simp: store_ok_def list_all_iff)
      from s have "s \<in> set ss" by (rule in_set_takeD)
      then have "bb_id s \<in> set (map bb_id ss)" by simp
      then have "next_BlockBatch_id w0 \<le> bb_id s" by (simp add: ids)
      with lt x(2) eq show False by simp
    qed
  qed
  then show ?thesis by (auto simp: list_all_iff)
qed

text \<open>
  C4 (as amended). \<^verbatim>\<open>destroyOldBlocks\<close> deletes the snapshots of the account beyond
  the newest 4 by id, complete or not, together with their entries, and nothing else:
  with snapshot ids a primary key, the account keeps exactly its newest 4 snapshots and
  the other accounts keep theirs. A sync that ends sealed leaves the account with the
  sealed snapshot and the newest 3 it had before. In particular, after 6 sealed syncs in
  a row of an account that had no snapshot, exactly 4 snapshots remain, those of the
  last 4 syncs, all complete, and no entry of the first 2 is left.
\<close>

theorem retention_pruner:
  "BlockBatches (destroyOldBlocks w u) =
     filter (\<lambda>r. bb_id r \<notin> bb_id ` set (drop 4 (account_batches w u))) (BlockBatches w) \<and>
   Blocks (destroyOldBlocks w u) =
     filter (\<lambda>r. blk_BlockBatchId r \<notin> bb_id ` set (drop 4 (account_batches w u))) (Blocks w) \<and>
   (distinct (map bb_id (BlockBatches w)) \<longrightarrow>
      account_batches (destroyOldBlocks w u) u = take 4 (account_batches w u) \<and>
      filter (\<lambda>b. bb_source_uid b \<noteq> u) (BlockBatches (destroyOldBlocks w u)) =
        filter (\<lambda>b. bb_source_uid b \<noteq> u) (BlockBatches w)) \<and>
   (store_ok w1 \<and> updateBlocks fuel tw now e w1 user = Some (h, Some sealed, e', w2) \<longrightarrow>
      account_batches w2 (uid user) = take 4 (sealed # account_batches w1 (uid user)) \<and>
      store_ok w2) \<and>
   (store_ok w0 \<and> account_batches w0 (uid user) = [] \<and> length ps = 6 \<and>
    run_syncs ps w0 user = Some (ss, w6) \<longrightarrow>
      account_batches w6 (uid user) = rev (drop 2 ss) \<and>
      length (account_batches w6 (uid user)) = 4 \<and>
      distinct (map bb_id ss) \<and> list_all bb_complete ss \<and>
      list_all (\<lambda>r. blk_BlockBatchId r \<notin> bb_id ` set (take 2 ss)) (Blocks w6) \<and>
      store_ok w6)"
proof (intro conjI impI)
  show "BlockBatches (destroyOldBlocks w u) =
     filter (\<lambda>r. bb_id r \<notin> bb_id ` set (drop 4 (account_batches w u))) (BlockBatches w)"
    and "Blocks (destroyOldBlocks w u) =
     filter (\<lambda>r. blk_BlockBatchId r \<notin> bb_id ` set (drop 4 (account_batches w u))) (Blocks w)"
    using destroyOldBlocks_tables [of w u] by simp_all
next
  assume d: "distinct (map bb_id (BlockBatches w))"
  show "account_batches (destroyOldBlocks w u) u = take 4 (account_batches w u)"
    by (rule destroyOldBlocks_account [OF d])
  show "filter (\<lambda>b. bb_source_uid b \<noteq> u) (BlockBatches (destroyOldBlocks w u)) =
        filter (\<lambda>b. bb_source_uid b \<noteq> u) (BlockBatches w)"
    by (rule destroyOldBlocks_others [OF d])
next
  assume a: "store_ok w1 \<and> updateBlocks fuel tw now e w1 user = Some (h, Some sealed, e', w2)"
  then have ok: "store_ok w1"
    and run: "updateBlocks fuel tw now e w1 user = Some (h, Some sealed, e', w2)"
    by simp_all
  from updateBlocks_sealed [OF ok run]
  show "account_batches w2 (uid user) = take 4 (sealed # account_batches w1 (uid user))"
    and "store_ok w2"
    by simp_all
next
  assume a: "store_ok w0 \<and> account_batches w0 (uid user) = [] \<and> length ps = 6 \<and>
    run_syncs ps w0 user = Some (ss, w6)"
  then have ok: "store_ok w0" and empty: "account_batches w0 (uid user) = []"
    and six: "length ps = 6" and run: "run_syncs ps w0 user = Some (ss, w6)"
    by simp_all
  from empty have le: "length (account_batches w0 (uid user)) \<le> 4" by simp
  note r = run_syncs_sealed [OF ok run le]
  from r six have len: "length ss = 6" by simp
  from r have ids: "map bb_id ss = [next_BlockBatch_id w0 ..< next_BlockBatch_id w0 + length ss]"
    by (simp del: upt_Suc)
  have "take 4 (rev ss) = rev (drop 2 ss)"
    using len by (simp add: rev_drop)
  with r empty show acct: "account_batches w6 (uid user) = rev (drop 2 ss)"
    by simp
  then show "length (account_batches w6 (uid user)) = 4"
    using len by simp
  show "distinct (map bb_id ss)" by (simp add: ids del: upt_Suc)
  from r show "list_all bb_complete ss" and ok6: "store_ok w6" by simp_all
  from r have others: "filter (\<lambda>r. bb_source_uid r \<noteq> uid user) (BlockBatches w6) =
           filter (\<lambda>r. bb_source_uid r \<noteq> uid user) (BlockBatches w0)"
    by simp
  show "list_all (\<lambda>r. blk_BlockBatchId r \<notin> bb_id ` set (take 2 ss)) (Blocks w6)"
    by (rule six_syncs_entries [OF ok ok6 acct others ids])
qed

lemma six_syncs_run:
  "\<exists>x. run_syncs (replicate 6 (Suc 0, one_page, 0, no_log)) empty_world user1 = Some x"
  by (simp add: eval_nat_numeral updateBlocks_def updateBlocks_start_def empty_world_def
      user1_def no_log_def one_page_def request_def currentCursor_of_def BlockBatch_create_def
      handleIds_def BlockBatch_save_def finalizeBlockBatch_def diffBatchWithPrevious_def
      order_id_desc_def destroyOldBlocks_def BlockBatch_destroy_def pluck_def getBlocks_def
      addedBlockIds_def removedBlockIds_def difference_def recordUnblocksUnlessDeactivated_def
      splice_loop_Nil Let_def)

theorem retention_pruner_witness:
  "\<exists>ss w6. run_syncs (replicate 6 (Suc 0, one_page, 0, no_log)) empty_world user1 = Some (ss, w6) \<and>
     account_batches w6 (uid user1) = rev (drop 2 ss) \<and>
     length (account_batches w6 (uid user1)) = 4"
proof -
  from six_syncs_run obtain ss w6 where
    run: "run_syncs (replicate 6 (Suc 0, one_page, 0, no_log)) empty_world user1 = Some (ss, w6)"
    by (metis prod.exhaust)
  have hyp: "store_ok empty_world \<and> account_batches empty_world (uid user1) = [] \<and>
      length (replicate 6 (Suc 0, one_page, 0::int, no_log)) = 6 \<and>
      run_syncs (replicate 6 (Suc 0, one_page, 0, no_log)) empty_world user1 = Some (ss, w6)"
    using run by (simp add: store_ok_def account_batches_def empty_world_def order_id_desc_def)
  from retention_pruner [where ?w0.0 = empty_world and user = user1 and
      ps = "replicate 6 (Suc 0, one_page, 0, no_log)" and ss = ss and ?w6.0 = w6] hyp
  have "account_batches w6 (uid user1) = rev (drop 2 ss) \<and>
     length (account_batches w6 (uid user1)) = 4"
    by blast
  with run show ?thesis by blast
qed

text \<open>
  With an incomplete snapshot among the newest 4, the complete snapshots kept are not
  the newest 4 complete ones: snapshot 2 is deleted, the incomplete snapshot 5 is kept.
\<close>

theorem retention_pruner_counterexample:
  "map bb_id (filter bb_complete
      (account_batches (destroyOldBlocks aborted_world ''u1'') ''u1'')) = [6, 4, 3] \<and>
   map bb_id (take 4 (order_id_desc
      (filter (\<lambda>b. bb_source_uid b = ''u1'' \<and> bb_complete b) (BlockBatches aborted_world)))) =
     [6, 4, 3, 2]"
  by (simp add: account_batches_def destroyOldBlocks_def BlockBatch_destroy_def aborted_world_def
      empty_world_def snapshot_def order_id_desc_def pluck_def Let_def)

subsection \<open>Rate-limit resumption\<close>

lemma create_related:
  assumes "actions_only wa wb"
  shows "fst (BlockBatch_create wb u) = fst (BlockBatch_create wa u) \<and>
         actions_only (snd (BlockBatch_create wa u)) (snd (BlockBatch_create wb u))"
  using assms by (simp add: BlockBatch_create_def actions_only_def Let_def)

lemma handleIds_related:
  assumes "actions_only wa wb" and "handleIds wa b c res = (b', nc, wa2)"
  shows "\<exists>wb2. handleIds wb b c res = (b', nc, wb2) \<and> actions_only wa2 wb2"
  using assms by (auto simp: handleIds_def BlockBatch_save_def actions_only_def Let_def)

lemma destroyOldBlocks_related:
  assumes "actions_only wa wb"
  shows "actions_only (destroyOldBlocks wa u) (destroyOldBlocks wb u)"
  using assms
  by (simp add: destroyOldBlocks_def BlockBatch_destroy_def actions_only_def Let_def)

lemma finalize_related:
  assumes "actions_only wa wb"
  shows "fst (finalizeBlockBatch tw wb nowb b) = fst (finalizeBlockBatch tw wa nowa b) \<and>
         actions_only (snd (finalizeBlockBatch tw wa nowa b)) (snd (finalizeBlockBatch tw wb nowb b))"
proof -
  let ?s = "b\<lparr>bb_complete := True\<rparr>"
  let ?a1 = "BlockBatch_save wa ?s" and ?b1 = "BlockBatch_save wb ?s"
  let ?a2 = "snd (diffBatchWithPrevious tw ?a1 nowa ?s)"
  let ?b2 = "snd (diffBatchWithPrevious tw ?b1 nowb ?s)"
  have 1: "actions_only ?a1 ?b1"
    using assms by (simp add: BlockBatch_save_def actions_only_def)
  have "actions_only ?a2 ?a1"
    by (rule actions_only_sym [OF diffBatchWithPrevious_frame])
  from actions_only_trans [OF this 1] have "actions_only ?a2 ?b1" .
  from actions_only_trans [OF this diffBatchWithPrevious_frame]
  have "actions_only ?a2 ?b2" .
  from destroyOldBlocks_related [OF this, of "bb_source_uid b"]
  show ?thesis
    by (simp add: finalizeBlockBatch_def Let_def split_beta actions_only_def)
qed

lemma fetch_no_limits:
  assumes "outcomes e = []" and "outcomes e0 = []" and "actions_only wa wb"
    and "fetchAndStoreBlocks n tw now0 e0 wa user bb cursor = Some (r, e0', wa')"
  shows "\<exists>e' wb'. fetchAndStoreBlocks n tw now e wb user bb cursor = Some (r, e', wb') \<and>
           actions_only wa' wb' \<and> outcomes e' = [] \<and> waited e' = waited e"
  using assms
proof (induction n arbitrary: e e0 wa wb bb cursor)
  case 0
  then show ?case by simp
next
  case (Suc n)
  let ?cc = "currentCursor_of cursor"
  let ?g = "e\<lparr>requests := requests e @ [?cc]\<rparr>"
  let ?f = "e0\<lparr>requests := requests e0 @ [?cc]\<rparr>"
  let ?ca = "case bb of None \<Rightarrow> BlockBatch_create wa (uid user) | Some b \<Rightarrow> (b, wa)"
  let ?cb = "case bb of None \<Rightarrow> BlockBatch_create wb (uid user) | Some b \<Rightarrow> (b, wb)"
  have o: "outcomes ?g = []" "outcomes ?f = []" "waited ?g = waited e"
    using Suc.prems by simp_all
  have req: "request e ?cc = (Succeed, ?g)" by (rule request_Nil [OF Suc.prems(1)])
  have req0: "request e0 ?cc = (Succeed, ?f)" by (rule request_Nil [OF Suc.prems(2)])
  have cr: "fst ?cb = fst ?ca" "actions_only (snd ?ca) (snd ?cb)"
    using create_related [OF Suc.prems(3), of "uid user"] Suc.prems(3)
    by (cases bb; simp)+
  obtain b' nc wa2 where ha: "handleIds (snd ?ca) (fst ?ca) ?cc (blocks_ids tw user ?cc) = (b', nc, wa2)"
    by (cases "handleIds (snd ?ca) (fst ?ca) ?cc (blocks_ids tw user ?cc)")
  from handleIds_related [OF cr(2) ha] obtain wb2 where
    hb: "handleIds (snd ?cb) (fst ?cb) ?cc (blocks_ids tw user ?cc) = (b', nc, wb2)"
    and rel2: "actions_only wa2 wb2"
    by (auto simp: cr(1))
  show ?case
  proof (cases "nc = ''0''")
    case True
    have "r = Some (fst (finalizeBlockBatch tw wa2 now0 b'))"
      "wa' = snd (finalizeBlockBatch tw wa2 now0 b')"
      using Suc.prems(4)
      by (simp_all add: fetch_step req0 ha True del: fetchAndStoreBlocks.simps)
    with finalize_related [OF rel2, of tw now b' now0]
    have "fetchAndStoreBlocks (Suc n) tw now e wb user bb cursor =
        Some (r, ?g, snd (finalizeBlockBatch tw wb2 now b')) \<and>
      actions_only wa' (snd (finalizeBlockBatch tw wb2 now b'))"
      by (simp add: fetch_step req hb True del: fetchAndStoreBlocks.simps)
    with o show ?thesis by blast
  next
    case False
    have "fetchAndStoreBlocks n tw now0 ?f wa2 user (Some b') (Some nc) = Some (r, e0', wa')"
      using Suc.prems(4)
      by (simp add: fetch_step req0 ha False del: fetchAndStoreBlocks.simps)
    from Suc.IH [OF o(1) o(2) rel2 this]
    obtain e' wb' where "fetchAndStoreBlocks n tw now ?g wb2 user (Some b') (Some nc) =
        Some (r, e', wb')"
      "actions_only wa' wb'" "outcomes e' = []" "waited e' = waited ?g"
      by blast
    then have "fetchAndStoreBlocks (Suc n) tw now e wb user bb cursor = Some (r, e', wb') \<and>
        actions_only wa' wb' \<and> outcomes e' = [] \<and> waited e' = waited e"
      by (simp add: fetch_step req hb False del: fetchAndStoreBlocks.simps)
    then show ?thesis by blast
  qed
qed

lemma fetch_resumed_refines:
  assumes "outcomes e = sched" and "list_all retryable sched" and "outcomes e0 = []"
    and "actions_only wa wb"
    and "fetchAndStoreBlocks n tw now0 e0 wa user (Some b) cursor = Some (r, e0', wa')"
  shows "\<exists>e' wb' used. fetchAndStoreBlocks (n + length sched) tw now e wb user (Some b) cursor =
             Some (r, e', wb') \<and>
           actions_only wa' wb' \<and> sched = used @ outcomes e' \<and>
           waited e' = waited e + 15 * 60 * 1000 * count_list used (Fail 429)"
  using assms
proof (induction sched arbitrary: e e0 n now wa wb b cursor)
  case Nil
  from fetch_no_limits [OF Nil(1) Nil(3) Nil(4) Nil(5), of now] show ?case by auto
next
  case (Cons out rest)
  let ?cc = "currentCursor_of cursor"
  let ?g = "e\<lparr>outcomes := rest, requests := requests e @ [?cc]\<rparr>"
  let ?f = "e0\<lparr>requests := requests e0 @ [?cc]\<rparr>"
  from Cons.prems(5) obtain m where n: "n = Suc m" by (cases n) auto
  have rest: "list_all retryable rest" using Cons.prems(2) by simp
  have out: "out = Succeed \<or> out = Fail 429"
    using Cons.prems(2) by (simp add: retryable_def)
  have req: "request e ?cc = (out, ?g)" by (rule request_Cons [OF Cons.prems(1)])
  have req0: "request e0 ?cc = (Succeed, ?f)" by (rule request_Nil [OF Cons.prems(3)])
  from out show ?case
  proof
    assume limited: "out = Fail 429"
    let ?h = "?g\<lparr>waited := waited ?g + 15 * 60 * 1000\<rparr>"
    have "fetchAndStoreBlocks n tw now0 e0 wa user (Some b) (Some ?cc) = Some (r, e0', wa')"
      using Cons.prems(5) by (simp only: fetch_cursor_norm)
    from Cons.IH [OF _ rest Cons.prems(3) Cons.prems(4) this, of ?h "now + 15 * 60 * 1000"]
    obtain e' wb' used where run: "fetchAndStoreBlocks (n + length rest) tw (now + 15 * 60 * 1000)
          ?h wb user (Some b) (Some ?cc) = Some (r, e', wb')"
      and rel: "actions_only wa' wb'"
      and used: "rest = used @ outcomes e'"
      and wait: "waited e' = waited ?h + 15 * 60 * 1000 * count_list used (Fail 429)"
      by auto
    have "fetchAndStoreBlocks (n + length (out # rest)) tw now e wb user (Some b) cursor =
          Some (r, e', wb')"
      using run by (simp add: fetch_resumed_step req limited del: fetchAndStoreBlocks.simps)
    moreover have "out # rest = (Fail 429 # used) @ outcomes e'"
      using used limited by simp
    moreover have "waited e' = waited e + 15 * 60 * 1000 * count_list (Fail 429 # used) (Fail 429)"
      using wait by simp
    ultimately show ?thesis using rel by blast
  next
    assume ok: "out = Succeed"
    obtain b' nc wa2 where ha: "handleIds wa b ?cc (blocks_ids tw user ?cc) = (b', nc, wa2)"
      by (cases "handleIds wa b ?cc (blocks_ids tw user ?cc)")
    from handleIds_related [OF Cons.prems(4) ha] obtain wb2 where
      hb: "handleIds wb b ?cc (blocks_ids tw user ?cc) = (b', nc, wb2)"
      and rel2: "actions_only wa2 wb2"
      by auto
    show ?thesis
    proof (cases "nc = ''0''")
      case True
      have r0: "r = Some (fst (finalizeBlockBatch tw wa2 now0 b'))"
        "wa' = snd (finalizeBlockBatch tw wa2 now0 b')"
        using Cons.prems(5) unfolding n
        by (simp_all add: fetch_resumed_step req0 ha True del: fetchAndStoreBlocks.simps)
      with finalize_related [OF rel2, of tw now b' now0]
      have "fetchAndStoreBlocks (n + length (out # rest)) tw now e wb user (Some b) cursor =
          Some (r, ?g, snd (finalizeBlockBatch tw wb2 now b')) \<and>
        actions_only wa' (snd (finalizeBlockBatch tw wb2 now b'))"
        unfolding n
        by (simp add: fetch_resumed_step req ok hb True del: fetchAndStoreBlocks.simps)
      moreover have "out # rest = [Succeed] @ outcomes ?g" using ok by simp
      moreover have "waited ?g = waited e + 15 * 60 * 1000 * count_list [Succeed] (Fail 429)"
        by simp
      ultimately show ?thesis by blast
    next
      case False
      have "fetchAndStoreBlocks m tw now0 ?f wa2 user (Some b') (Some nc) = Some (r, e0', wa')"
        using Cons.prems(5) unfolding n
        by (simp add: fetch_resumed_step req0 ha False del: fetchAndStoreBlocks.simps)
      from Cons.IH [OF _ rest _ rel2 this, of ?g now] Cons.prems(3)
      obtain e' wb' used where run: "fetchAndStoreBlocks (m + length rest) tw now ?g wb2 user
           (Some b') (Some nc) = Some (r, e', wb')"
        and rel: "actions_only wa' wb'"
        and used: "rest = used @ outcomes e'"
        and wait: "waited e' = waited ?g + 15 * 60 * 1000 * count_list used (Fail 429)"
        by auto
      from fetch_more_fuel [OF run, of 1]
      have "fetchAndStoreBlocks (n + length (out # rest)) tw now e wb user (Some b) cursor =
          Some (r, e', wb')"
        unfolding n
        by (simp add: fetch_resumed_step req ok hb False del: fetchAndStoreBlocks.simps)
      moreover have "out # rest = (Succeed # used) @ outcomes e'" using used ok by simp
      moreover have "waited e' = waited e + 15 * 60 * 1000 * count_list (Succeed # used) (Fail 429)"
        using wait by simp
      ultimately show ?thesis using rel by blast
    qed
  qed
qed

lemma fetch_initial_refines:
  assumes "outcomes e = Succeed # sched" and "list_all retryable sched" and "outcomes e0 = []"
    and "actions_only wa wb"
    and "fetchAndStoreBlocks n tw now e0 wa user None cursor = Some (r, e0', wa')"
  shows "\<exists>e' wb' used. fetchAndStoreBlocks (n + length sched) tw now e wb user None cursor =
             Some (r, e', wb') \<and>
           actions_only wa' wb' \<and> Succeed # sched = used @ outcomes e' \<and>
           waited e' = waited e + 15 * 60 * 1000 * count_list used (Fail 429)"
proof -
  let ?cc = "currentCursor_of cursor"
  let ?g = "e\<lparr>outcomes := sched, requests := requests e @ [?cc]\<rparr>"
  let ?f = "e0\<lparr>requests := requests e0 @ [?cc]\<rparr>"
  let ?ca = "BlockBatch_create wa (uid user)" and ?cb = "BlockBatch_create wb (uid user)"
  from assms(5) obtain m where n: "n = Suc m" by (cases n) auto
  have req: "request e ?cc = (Succeed, ?g)" by (rule request_Cons [OF assms(1)])
  have req0: "request e0 ?cc = (Succeed, ?f)" by (rule request_Nil [OF assms(3)])
  note cr = create_related [OF assms(4), of "uid user"]
  obtain b' nc wa2 where ha: "handleIds (snd ?ca) (fst ?ca) ?cc (blocks_ids tw user ?cc) = (b', nc, wa2)"
    by (cases "handleIds (snd ?ca) (fst ?ca) ?cc (blocks_ids tw user ?cc)")
  from handleIds_related [OF conjunct2 [OF cr] ha] obtain wb2 where
    hb: "handleIds (snd ?cb) (fst ?cb) ?cc (blocks_ids tw user ?cc) = (b', nc, wb2)"
    and rel2: "actions_only wa2 wb2"
    using cr by auto
  show ?thesis
  proof (cases "nc = ''0''")
    case True
    have r0: "r = Some (fst (finalizeBlockBatch tw wa2 now b'))"
      "wa' = snd (finalizeBlockBatch tw wa2 now b')"
      using assms(5) unfolding n
      by (simp_all add: fetch_step req0 ha True del: fetchAndStoreBlocks.simps)
    with finalize_related [OF rel2, of tw now b' now]
    have "fetchAndStoreBlocks (n + length sched) tw now e wb user None cursor =
        Some (r, ?g, snd (finalizeBlockBatch tw wb2 now b')) \<and>
      actions_only wa' (snd (finalizeBlockBatch tw wb2 now b'))"
      unfolding n
      by (simp add: fetch_step req hb True del: fetchAndStoreBlocks.simps)
    moreover have "Succeed # sched = [Succeed] @ outcomes ?g" by simp
    moreover have "waited ?g = waited e + 15 * 60 * 1000 * count_list [Succeed] (Fail 429)"
      by simp
    ultimately show ?thesis by blast
  next
    case False
    have "fetchAndStoreBlocks m tw now ?f wa2 user (Some b') (Some nc) = Some (r, e0', wa')"
      using assms(5) unfolding n
      by (simp add: fetch_step req0 ha False del: fetchAndStoreBlocks.simps)
    from fetch_resumed_refines [OF _ assms(2) _ rel2 this, of ?g now] assms(3)
    obtain e' wb' used where run: "fetchAndStoreBlocks (m + length sched) tw now ?g wb2 user
           (Some b') (Some nc) = Some (r, e', wb')"
      and rel: "actions_only wa' wb'"
      and used: "sched = used @ outcomes e'"
      and wait: "waited e' = waited ?g + 15 * 60 * 1000 * count_list used (Fail 429)"
      by auto
    have "fetchAndStoreBlocks (n + length sched) tw now e wb user None cursor = Some (r, e', wb')"
      using run unfolding n
      by (simp add: fetch_step req hb False del: fetchAndStoreBlocks.simps)
    moreover have "Succeed # sched = (Succeed # used) @ outcomes e'" using used by simp
    moreover have "waited e' = waited e + 15 * 60 * 1000 * count_list (Succeed # used) (Fail 429)"
      using wait by simp
    ultimately show ?thesis using rel by blast
  qed
qed

lemma handleIds_getBlocks:
  assumes "handleIds w b c res = (b', nc, w2)"
  shows "getBlocks w2 b' =
           getBlocks w b @ map (\<lambda>i. \<lparr>blk_sink_uid = i, blk_BlockBatchId = bb_id b\<rparr>) (fst res)"
  using assms by (auto simp: handleIds_def getBlocks_def BlockBatch_save_def Let_def)

lemma finalize_getBlocks:
  assumes "in_progress w b old" and "finalizeBlockBatch tw w now b = (sealed, w')"
  shows "getBlocks w' sealed = getBlocks w b"
proof -
  let ?u = "bb_source_uid b"
  let ?s = "b\<lparr>bb_complete := True\<rparr>"
  let ?w1 = "BlockBatch_save w ?s"
  let ?w2 = "snd (diffBatchWithPrevious tw ?w1 now ?s)"
  let ?w3 = "destroyOldBlocks ?w2 ?u"
  let ?L = "order_id_desc (filter (\<lambda>r. bb_source_uid r = ?u) old)"
  from assms(2) have s: "sealed = ?s"
    and w': "w' = ?w3\<lparr>activeFetches := (activeFetches ?w3)(?u := None)\<rparr>"
    by (auto simp: finalizeBlockBatch_def Let_def split_beta)
  have bs1: "BlockBatches ?w1 = old @ [?s]"
    using assms(1) save_last [OF in_progress_old(3) [OF assms(1)], of ?s]
    by (simp add: BlockBatch_save_def in_progress_def)
  have fr: "actions_only ?w1 ?w2" by (rule diffBatchWithPrevious_frame)
  then have same: "BlockBatches ?w2 = old @ [?s]" "Blocks ?w2 = Blocks w"
    by (simp_all add: actions_only_def bs1) (simp add: BlockBatch_save_def)
  have acct: "account_batches ?w2 ?u = ?s # ?L"
    using in_progress_old(1) [OF assms(1)]
    by (simp add: account_batches_def same(1) order_id_desc_snoc list_all_iff)
  have "set (drop 4 (?s # ?L)) \<subseteq> set old"
    by (auto dest!: in_set_dropD)
  with in_progress_old(3) [OF assms(1)]
  have notin: "bb_id b \<notin> bb_id ` set (drop 4 (account_batches ?w2 ?u))"
    unfolding acct by blast
  define D where "D = bb_id ` set (drop 4 (account_batches ?w2 ?u))"
  have "Blocks w' = filter (\<lambda>r. blk_BlockBatchId r \<notin> D) (Blocks w)"
    using destroyOldBlocks_tables [of ?w2 ?u] by (simp add: w' same(2) D_def)
  moreover have "bb_id b \<notin> D" using notin by (simp add: D_def)
  ultimately show ?thesis
    by (auto simp: getBlocks_def s intro!: filter_cong)
qed

lemma fetch_resumed_lists:
  assumes "in_progress w b old" and "outcomes e0 = []"
    and "reaches_end k tw user (currentCursor_of cursor)"
  shows "\<exists>sealed e0' w'.
           fetchAndStoreBlocks k tw now e0 w user (Some b) cursor = Some (Some sealed, e0', w') \<and>
           getBlocks w' sealed =
             getBlocks w b @ map (\<lambda>i. \<lparr>blk_sink_uid = i, blk_BlockBatchId = bb_id b\<rparr>)
               (listed_ids k tw user (currentCursor_of cursor)) \<and>
           bb_id sealed = bb_id b \<and> bb_complete sealed"
  using assms
proof (induction k arbitrary: e0 w b cursor)
  case 0
  then show ?case by simp
next
  case (Suc k)
  let ?cc = "currentCursor_of cursor"
  let ?f = "e0\<lparr>requests := requests e0 @ [?cc]\<rparr>"
  have req0: "request e0 ?cc = (Succeed, ?f)" by (rule request_Nil [OF Suc.prems(2)])
  obtain b' nc w2 where h: "handleIds w b ?cc (blocks_ids tw user ?cc) = (b', nc, w2)"
    by (cases "handleIds w b ?cc (blocks_ids tw user ?cc)")
  note nc = handleIds_nextCursor [OF h]
  from handleIds_in_progress [OF Suc.prems(1) h]
  have ip: "in_progress w2 b' old" and id: "bb_id b' = bb_id b" by simp_all
  note gb = handleIds_getBlocks [OF h]
  show ?case
  proof (cases "nc = ''0''")
    case True
    obtain sealed w' where fin: "finalizeBlockBatch tw w2 now b' = (sealed, w')"
      by (cases "finalizeBlockBatch tw w2 now b'")
    have "fetchAndStoreBlocks (Suc k) tw now e0 w user (Some b) cursor = Some (Some sealed, ?f, w')"
      by (simp add: fetch_resumed_step req0 h True fin del: fetchAndStoreBlocks.simps)
    moreover have "getBlocks w' sealed =
        getBlocks w b @ map (\<lambda>i. \<lparr>blk_sink_uid = i, blk_BlockBatchId = bb_id b\<rparr>)
          (listed_ids (Suc k) tw user ?cc)"
      using finalize_getBlocks [OF ip fin] gb nc True by simp
    moreover have "bb_id sealed = bb_id b \<and> bb_complete sealed"
      using finalize_sealed(1) [OF ip refl fin] id by simp
    ultimately show ?thesis by blast
  next
    case False
    with Suc.prems(3) nc have re: "reaches_end k tw user (currentCursor_of (Some nc))"
      by simp
    have o: "outcomes ?f = []" using Suc.prems(2) by simp
    from Suc.IH [OF ip o re]
    obtain sealed e0' w' where
      run: "fetchAndStoreBlocks k tw now ?f w2 user (Some b') (Some nc) = Some (Some sealed, e0', w')"
      and blocks: "getBlocks w' sealed =
             getBlocks w2 b' @ map (\<lambda>i. \<lparr>blk_sink_uid = i, blk_BlockBatchId = bb_id b'\<rparr>)
               (listed_ids k tw user (currentCursor_of (Some nc)))"
      and s: "bb_id sealed = bb_id b'" "bb_complete sealed"
      by blast
    have "fetchAndStoreBlocks (Suc k) tw now e0 w user (Some b) cursor = Some (Some sealed, e0', w')"
      using run by (simp add: fetch_resumed_step req0 h False del: fetchAndStoreBlocks.simps)
    moreover have "getBlocks w' sealed =
        getBlocks w b @ map (\<lambda>i. \<lparr>blk_sink_uid = i, blk_BlockBatchId = bb_id b\<rparr>)
          (listed_ids (Suc k) tw user ?cc)"
      using blocks gb nc False id by simp
    ultimately show ?thesis using s id by auto
  qed
qed

lemma fetch_initial_lists:
  assumes "store_ok w" and "outcomes e0 = []"
    and "reaches_end k tw user (currentCursor_of cursor)"
  shows "\<exists>sealed e0' w'.
           fetchAndStoreBlocks k tw now e0 w user None cursor = Some (Some sealed, e0', w') \<and>
           getBlocks w' sealed =
             map (\<lambda>i. \<lparr>blk_sink_uid = i, blk_BlockBatchId = next_BlockBatch_id w\<rparr>)
               (listed_ids k tw user (currentCursor_of cursor)) \<and>
           bb_id sealed = next_BlockBatch_id w \<and> bb_complete sealed"
proof -
  from assms(3) obtain m where k: "k = Suc m" by (cases k) auto
  let ?cc = "currentCursor_of cursor"
  let ?f = "e0\<lparr>requests := requests e0 @ [?cc]\<rparr>"
  let ?cr = "BlockBatch_create w (uid user)"
  have req0: "request e0 ?cc = (Succeed, ?f)" by (rule request_Nil [OF assms(2)])
  note cr = BlockBatch_create_in_progress [OF assms(1), of "uid user"]
  have "blk_BlockBatchId r \<noteq> next_BlockBatch_id w" if "r \<in> set (Blocks w)" for r
    using assms(1) that unfolding store_ok_def list_all_iff by fastforce
  then have empty: "getBlocks (snd ?cr) (fst ?cr) = []"
    by (auto simp: getBlocks_def BlockBatch_create_def Let_def filter_empty_conv)
  obtain b' nc w2 where h: "handleIds (snd ?cr) (fst ?cr) ?cc (blocks_ids tw user ?cc) = (b', nc, w2)"
    by (cases "handleIds (snd ?cr) (fst ?cr) ?cc (blocks_ids tw user ?cc)")
  note nc = handleIds_nextCursor [OF h]
  from handleIds_in_progress [OF cr(1) h] cr(3)
  have ip: "in_progress w2 b' (BlockBatches w)" and id: "bb_id b' = next_BlockBatch_id w"
    by simp_all
  have gb: "getBlocks w2 b' =
      map (\<lambda>i. \<lparr>blk_sink_uid = i, blk_BlockBatchId = next_BlockBatch_id w\<rparr>)
        (fst (blocks_ids tw user ?cc))"
    using handleIds_getBlocks [OF h] empty cr(3) by simp
  show ?thesis
  proof (cases "nc = ''0''")
    case True
    obtain sealed w' where fin: "finalizeBlockBatch tw w2 now b' = (sealed, w')"
      by (cases "finalizeBlockBatch tw w2 now b'")
    have "fetchAndStoreBlocks k tw now e0 w user None cursor = Some (Some sealed, ?f, w')"
      unfolding k by (simp add: fetch_step req0 h True fin del: fetchAndStoreBlocks.simps)
    moreover have "getBlocks w' sealed =
        map (\<lambda>i. \<lparr>blk_sink_uid = i, blk_BlockBatchId = next_BlockBatch_id w\<rparr>)
          (listed_ids k tw user ?cc)"
      using finalize_getBlocks [OF ip fin] gb nc True by (simp add: k)
    moreover have "bb_id sealed = next_BlockBatch_id w \<and> bb_complete sealed"
      using finalize_sealed(1) [OF ip refl fin] id by simp
    ultimately show ?thesis by blast
  next
    case False
    with assms(3) nc have re: "reaches_end m tw user (currentCursor_of (Some nc))"
      by (simp add: k)
    have o: "outcomes ?f = []" using assms(2) by simp
    from fetch_resumed_lists [OF ip o re, of now]
    obtain sealed e0' w' where
      run: "fetchAndStoreBlocks m tw now ?f w2 user (Some b') (Some nc) = Some (Some sealed, e0', w')"
      and blocks: "getBlocks w' sealed =
             getBlocks w2 b' @ map (\<lambda>i. \<lparr>blk_sink_uid = i, blk_BlockBatchId = bb_id b'\<rparr>)
               (listed_ids m tw user (currentCursor_of (Some nc)))"
      and s: "bb_id sealed = bb_id b'" "bb_complete sealed"
      by blast
    have "fetchAndStoreBlocks k tw now e0 w user None cursor = Some (Some sealed, e0', w')"
      using run unfolding k
      by (simp add: fetch_step req0 h False del: fetchAndStoreBlocks.simps)
    moreover have "getBlocks w' sealed =
        map (\<lambda>i. \<lparr>blk_sink_uid = i, blk_BlockBatchId = next_BlockBatch_id w\<rparr>)
          (listed_ids k tw user ?cc)"
      using blocks gb nc False id by (simp add: k)
    ultimately show ?thesis using s id by auto
  qed
qed


text \<open>
  C7. A page request that is rate-limited when the run already has its snapshot is
  repeated 15 minutes later, for the same snapshot and with the same cursor. Hence a
  sync whose first request succeeds and whose later requests meet any list of
  successes and rate limits comes to its end whenever the listing ends within k
  pages, within k requests plus the length of that list: it returns the sealed
  snapshot that the sync meeting no rate limit returns, with the same entries, which
  are the identifiers of the pages in order; it has waited 15 minutes for every rate
  limit it met. The two syncs leave the same snapshots and entries in the store; the
  Action table may differ, as the dedup search reads a clock that the backoffs have
  moved.
\<close>

theorem rate_limit_resumption:
  "(outcomes el = Fail 429 # rest \<longrightarrow>
      fetchAndStoreBlocks (Suc fuel) tw now el w user (Some b) cursor =
        fetchAndStoreBlocks fuel tw (now + 15 * 60 * 1000)
          (el\<lparr>outcomes := rest, requests := requests el @ [currentCursor_of cursor],
              waited := waited el + 15 * 60 * 1000\<rparr>)
          w user (Some b) (Some (currentCursor_of cursor)) \<and>
      currentCursor_of (Some (currentCursor_of cursor)) = currentCursor_of cursor) \<and>
   (store_ok w \<and> activeFetches w (uid user) = None \<and> reaches_end k tw user ''-1'' \<and>
    outcomes e0 = [] \<and> outcomes e = Succeed # sched \<and> list_all retryable sched \<longrightarrow>
      (\<exists>sealed e0' w0' e' w' used.
         updateBlocks k tw now e0 w user =
           Some (Fetch (fetches_started w), Some sealed, e0', w0') \<and>
         updateBlocks (k + length sched) tw now e w user =
           Some (Fetch (fetches_started w), Some sealed, e', w') \<and>
         bb_complete sealed \<and>
         getBlocks w0' sealed =
           map (\<lambda>i. \<lparr>blk_sink_uid = i, blk_BlockBatchId = bb_id sealed\<rparr>)
             (listed_ids k tw user ''-1'') \<and>
         getBlocks w' sealed = getBlocks w0' sealed \<and>
         actions_only w0' w' \<and>
         Succeed # sched = used @ outcomes e' \<and>
         waited e' = waited e + 15 * 60 * 1000 * count_list used (Fail 429)))"
proof (intro conjI impI)
  assume "outcomes el = Fail 429 # rest"
  then show "fetchAndStoreBlocks (Suc fuel) tw now el w user (Some b) cursor =
        fetchAndStoreBlocks fuel tw (now + 15 * 60 * 1000)
          (el\<lparr>outcomes := rest, requests := requests el @ [currentCursor_of cursor],
              waited := waited el + 15 * 60 * 1000\<rparr>)
          w user (Some b) (Some (currentCursor_of cursor))"
    by (simp add: fetch_resumed_step request_Cons del: fetchAndStoreBlocks.simps)
next
  show "currentCursor_of (Some (currentCursor_of cursor)) = currentCursor_of cursor"
    by (rule currentCursor_of_idem)
next
  assume a: "store_ok w \<and> activeFetches w (uid user) = None \<and> reaches_end k tw user ''-1'' \<and>
    outcomes e0 = [] \<and> outcomes e = Succeed # sched \<and> list_all retryable sched"
  let ?w1 = "w\<lparr>activeFetches := (activeFetches w)(uid user \<mapsto> fetches_started w),
              fetches_started := Suc (fetches_started w)\<rparr>"
  have start: "updateBlocks_start w user = (Fetch (fetches_started w), ?w1)"
    using a by (simp add: updateBlocks_start_def)
  have ok: "store_ok ?w1" using a by (simp add: store_ok_def)
  have re: "reaches_end k tw user (currentCursor_of None)"
    using a by (simp add: currentCursor_of_def)
  from a have o0: "outcomes e0 = []" and o: "outcomes e = Succeed # sched"
    and ret: "list_all retryable sched"
    by simp_all
  from fetch_initial_lists [OF ok o0 re, of now]
  obtain sealed e0' w0' where
    run0: "fetchAndStoreBlocks k tw now e0 ?w1 user None None = Some (Some sealed, e0', w0')"
    and blocks: "getBlocks w0' sealed =
             map (\<lambda>i. \<lparr>blk_sink_uid = i, blk_BlockBatchId = next_BlockBatch_id ?w1\<rparr>)
               (listed_ids k tw user (currentCursor_of None))"
    and s: "bb_id sealed = next_BlockBatch_id ?w1" "bb_complete sealed"
    by blast
  from fetch_initial_refines [OF o ret o0 actions_only_refl run0]
  obtain e' w' used where
    run: "fetchAndStoreBlocks (k + length sched) tw now e ?w1 user None None =
            Some (Some sealed, e', w')"
    and rel: "actions_only w0' w'"
    and used: "Succeed # sched = used @ outcomes e'"
    and wait: "waited e' = waited e + 15 * 60 * 1000 * count_list used (Fail 429)"
    by blast
  have "updateBlocks k tw now e0 w user =
      Some (Fetch (fetches_started w), Some sealed, e0', w0')"
    using run0 by (simp add: updateBlocks_def start)
  moreover have "updateBlocks (k + length sched) tw now e w user =
      Some (Fetch (fetches_started w), Some sealed, e', w')"
    using run by (simp add: updateBlocks_def start)
  moreover have "getBlocks w0' sealed =
      map (\<lambda>i. \<lparr>blk_sink_uid = i, blk_BlockBatchId = bb_id sealed\<rparr>)
        (listed_ids k tw user ''-1'')"
    using blocks s(1) by (simp add: currentCursor_of_def)
  moreover have "getBlocks w' sealed = getBlocks w0' sealed"
    using rel by (simp add: getBlocks_def actions_only_def)
  ultimately show "\<exists>sealed e0' w0' e' w' used.
         updateBlocks k tw now e0 w user =
           Some (Fetch (fetches_started w), Some sealed, e0', w0') \<and>
         updateBlocks (k + length sched) tw now e w user =
           Some (Fetch (fetches_started w), Some sealed, e', w') \<and>
         bb_complete sealed \<and>
         getBlocks w0' sealed =
           map (\<lambda>i. \<lparr>blk_sink_uid = i, blk_BlockBatchId = bb_id sealed\<rparr>)
             (listed_ids k tw user ''-1'') \<and>
         getBlocks w' sealed = getBlocks w0' sealed \<and>
         actions_only w0' w' \<and>
         Succeed # sched = used @ outcomes e' \<and>
         waited e' = waited e + 15 * 60 * 1000 * count_list used (Fail 429)"
    using s(2) rel used wait by blast
qed

theorem rate_limit_resumption_witness:
  "(fetchAndStoreBlocks (Suc (Suc 0)) two_pages 0 (no_log\<lparr>outcomes := [Fail 429, Succeed]\<rparr>)
       empty_world user1 (Some (snapshot 1 False)) (Some ''5'') =
     fetchAndStoreBlocks (Suc 0) two_pages (0 + 15 * 60 * 1000)
       (no_log\<lparr>outcomes := [Fail 429, Succeed]\<rparr>
          \<lparr>outcomes := [Succeed],
           requests := requests (no_log\<lparr>outcomes := [Fail 429, Succeed]\<rparr>) @
                         [currentCursor_of (Some ''5'')],
           waited := waited (no_log\<lparr>outcomes := [Fail 429, Succeed]\<rparr>) + 15 * 60 * 1000\<rparr>)
       empty_world user1 (Some (snapshot 1 False)) (Some (currentCursor_of (Some ''5''))) \<and>
    currentCursor_of (Some (currentCursor_of (Some ''5''))) = currentCursor_of (Some ''5'')) \<and>
   (\<exists>sealed e0' w0' e' w' used.
      updateBlocks (Suc (Suc 0)) two_pages 0 no_log empty_world user1 =
        Some (Fetch (fetches_started empty_world), Some sealed, e0', w0') \<and>
      updateBlocks (Suc (Suc 0) + length [Fail 429, Succeed]) two_pages 0
          (no_log\<lparr>outcomes := [Succeed, Fail 429, Succeed]\<rparr>) empty_world user1 =
        Some (Fetch (fetches_started empty_world), Some sealed, e', w') \<and>
      bb_complete sealed \<and>
      getBlocks w0' sealed =
        map (\<lambda>i. \<lparr>blk_sink_uid = i, blk_BlockBatchId = bb_id sealed\<rparr>) [''1'', ''2'', ''3''] \<and>
      getBlocks w' sealed = getBlocks w0' sealed \<and>
      actions_only w0' w' \<and>
      Succeed # [Fail 429, Succeed] = used @ outcomes e' \<and>
      waited e' = waited (no_log\<lparr>outcomes := [Succeed, Fail 429, Succeed]\<rparr>) +
        15 * 60 * 1000 * count_list used (Fail 429))"
proof -
  have limited: "outcomes (no_log\<lparr>outcomes := [Fail 429, Succeed]\<rparr>) = Fail 429 # [Succeed]"
    by simp
  have hyps: "store_ok empty_world \<and> activeFetches empty_world (uid user1) = None \<and>
      reaches_end (Suc (Suc 0)) two_pages user1 ''-1'' \<and>
      outcomes no_log = [] \<and>
      outcomes (no_log\<lparr>outcomes := [Succeed, Fail 429, Succeed]\<rparr>) = Succeed # [Fail 429, Succeed] \<and>
      list_all retryable [Fail 429, Succeed]"
    by (simp add: store_ok_def empty_world_def two_pages_def currentCursor_of_def no_log_def
        retryable_def)
  have listed: "listed_ids (Suc (Suc 0)) two_pages user1 ''-1'' = [''1'', ''2'', ''3'']"
    by (simp add: two_pages_def currentCursor_of_def)
  note inst = rate_limit_resumption [where el = "no_log\<lparr>outcomes := [Fail 429, Succeed]\<rparr>" and
      rest = "[Succeed]" and fuel = "Suc 0" and tw = two_pages and now = 0 and
      w = empty_world and user = user1 and b = "snapshot 1 False" and cursor = "Some ''5''" and
      k = "Suc (Suc 0)" and ?e0.0 = no_log and
      e = "no_log\<lparr>outcomes := [Succeed, Fail 429, Succeed]\<rparr>" and
      sched = "[Fail 429, Succeed]", unfolded listed]
  from conjunct1 [OF inst, rule_format, OF limited] conjunct2 [OF inst, rule_format, OF hyps]
  show ?thesis by (rule conjI)
qed

end
